theory Spec2Isabelle
  imports Complex_Main "HOL-Library.Product_Lexorder"
begin

unbundle bit_operations_syntax

section \<open>Data model\<close>

text \<open>
  \<^verbatim>\<open>class CellType(Enum)\<close>: the four values a voxel can hold. The grids are
  \<^verbatim>\<open>np.int8\<close> arrays that are created by \<^verbatim>\<open>np.zeros\<close> and only ever assigned
  \<^verbatim>\<open>CellType.*.value\<close>, so a voxel is modelled by the enumeration itself
  (\<open>no_tree\<close> is the value 0 of a fresh array).
\<close>

datatype CellType = no_tree | stem | crown | collision

text \<open>
  A row of an \<open>(N, 3)\<close> coordinate array: three Python integers, possibly negative or
  beyond the array after a translation.
\<close>

type_synonym cell = "int \<times> int \<times> int"

text \<open>
  A three-dimensional \<^verbatim>\<open>np.ndarray\<close>: its \<^verbatim>\<open>shape\<close> and its contents. Only the
  contents at indices inside the shape belong to the array.
\<close>

record 'a ndarray =
  shape :: "nat \<times> nat \<times> nat"
  cells :: "cell \<Rightarrow> 'a"

type_synonym grid = "CellType ndarray"

text \<open>Exceptions of Python and numpy that the modelled code can raise.\<close>

datatype error = IndexError | ValueError | KeyError | StopIteration

fun vadd :: "cell \<Rightarrow> cell \<Rightarrow> cell" where
  "vadd (x, y, z) (a, b, c) = (x + a, y + b, z + c)"

fun vsub :: "cell \<Rightarrow> cell \<Rightarrow> cell" where
  "vsub (x, y, z) (a, b, c) = (x - a, y - b, z - c)"

definition in_bounds :: "'a ndarray \<Rightarrow> cell \<Rightarrow> bool" where
  "in_bounds a c =
     (case c of (x, y, z) \<Rightarrow> case shape a of (nx, ny, nz) \<Rightarrow>
        0 \<le> x \<and> x < int nx \<and> 0 \<le> y \<and> y < int ny \<and> 0 \<le> z \<and> z < int nz)"

text \<open>All indices of an array in C (row-major) order, the order of \<^verbatim>\<open>np.argwhere\<close>.\<close>

definition indices :: "'a ndarray \<Rightarrow> cell list" where
  "indices a =
     (case shape a of (nx, ny, nz) \<Rightarrow>
        [(x, y, z). x \<leftarrow> [0 .. int nx - 1], y \<leftarrow> [0 .. int ny - 1], z \<leftarrow> [0 .. int nz - 1]])"

definition argwhere :: "'a ndarray \<Rightarrow> 'a \<Rightarrow> cell list" where
  "argwhere a v = filter (\<lambda>c. cells a c = v) (indices a)"

subsection \<open>Indexing\<close>

text \<open>
  How one axis of length \<open>n\<close> treats an integer index. \<open>np_index\<close> is numpy's rule:
  an index in \<open>[0, n)\<close> is used as it is, one in \<open>[-n, 0)\<close> counts from the end, any
  other raises \<^verbatim>\<open>IndexError\<close>. \<open>checked_index\<close> is the stricter rule that accepts
  \<open>[0, n)\<close> only. Every function that reads or writes an array takes the rule as its
  first argument; the program itself runs under \<open>np_index\<close>.
\<close>

type_synonym indexing = "nat \<Rightarrow> int \<Rightarrow> error + int"

definition np_index :: indexing where
  "np_index n i =
     (if 0 \<le> i \<and> i < int n then Inr i
      else if - int n \<le> i \<and> i < 0 then Inr (i + int n)
      else Inl IndexError)"


definition locate :: "indexing \<Rightarrow> 'a ndarray \<Rightarrow> cell \<Rightarrow> error + cell" where
  "locate idx a c =
     (case c of (x, y, z) \<Rightarrow> case shape a of (nx, ny, nz) \<Rightarrow>
        (case idx nx x of Inl e \<Rightarrow> Inl e | Inr x' \<Rightarrow>
         case idx ny y of Inl e \<Rightarrow> Inl e | Inr y' \<Rightarrow>
         case idx nz z of Inl e \<Rightarrow> Inl e | Inr z' \<Rightarrow> Inr (x', y', z')))"

text \<open>\<^verbatim>\<open>a[cs[:, 0], cs[:, 1], cs[:, 2]]\<close>: the values at a list of coordinates.\<close>

fun take_cells :: "indexing \<Rightarrow> 'a ndarray \<Rightarrow> cell list \<Rightarrow> error + 'a list" where
  "take_cells idx a [] = Inr []"
| "take_cells idx a (c # cs) =
     (case locate idx a c of Inl e \<Rightarrow> Inl e | Inr c' \<Rightarrow>
      case take_cells idx a cs of Inl e \<Rightarrow> Inl e | Inr vs \<Rightarrow> Inr (cells a c' # vs))"

text \<open>\<^verbatim>\<open>a[cs[:, 0], cs[:, 1], cs[:, 2]] = v\<close>: one value stored at a list of coordinates.\<close>

fun put_cells :: "indexing \<Rightarrow> 'a ndarray \<Rightarrow> cell list \<Rightarrow> 'a \<Rightarrow> error + 'a ndarray" where
  "put_cells idx a [] v = Inr a"
| "put_cells idx a (c # cs) v =
     (case locate idx a c of Inl e \<Rightarrow> Inl e
      | Inr c' \<Rightarrow> put_cells idx (a\<lparr>cells := (cells a)(c' := v)\<rparr>) cs v)"

text \<open>\<^verbatim>\<open>mask[cond]\<close>: the rows of a coordinate array selected by a boolean array.\<close>

definition select :: "'a list \<Rightarrow> bool list \<Rightarrow> 'a list" where
  "select xs bs = map fst (filter snd (zip xs bs))"

definition trim_mask :: "'a ndarray \<Rightarrow> cell list \<Rightarrow> cell list" where
  "trim_mask tree_grid coords = filter (in_bounds tree_grid) coords"

section \<open>The fallback's mask of non-owned space\<close>

text \<open>
  Lines 485 and 490 of \<^verbatim>\<open>assign_rest_of_collision_cells\<close>:
  \<^verbatim>\<open>mask = (tree_grid != CellType.stem.value) | (tree_grid != CellType.crown.value)\<close>,
  an elementwise comparison joined by an elementwise or.
\<close>

definition non_owned_mask :: "grid \<Rightarrow> bool ndarray" where
  "non_owned_mask tree_grid =
     \<lparr>shape = shape tree_grid,
      cells = (\<lambda>c. cells tree_grid c \<noteq> stem \<or> cells tree_grid c \<noteq> crown)\<rparr>"

section \<open>Collision resolution\<close>

text \<open>Sequencing of steps that can raise: the first exception ends the run.\<close>

definition and_then :: "error + 'a \<Rightarrow> ('a \<Rightarrow> error + 'b) \<Rightarrow> error + 'b" where
  "and_then m f = (case m of Inl e \<Rightarrow> Inl e | Inr x \<Rightarrow> f x)"

text \<open>
  An entry of \<^verbatim>\<open>self.trees\<close>, the tuple \<^verbatim>\<open>(x, y, z, configuration_identifier, tree_grid)\<close>.
  Each tree owns its grid: no two entries share one array.
\<close>

record tree =
  anchor :: cell
  config_id :: nat
  voxels :: grid

text \<open>
  \<^verbatim>\<open>get_colliding_cells\<close>: the translated cells that lie inside \<open>tree_grid\<close> and hold
  crown there. \<^verbatim>\<open>contained_cells[np.argwhere(values == crown)].reshape(-1, 3)\<close> keeps the
  rows of \<open>contained_cells\<close> whose value is crown, in their order.
\<close>

definition get_colliding_cells :: "indexing \<Rightarrow> grid \<Rightarrow> cell list \<Rightarrow> error + cell list" where
  "get_colliding_cells idx tree_grid filled_translated_cells =
     (let contained_cells = trim_mask tree_grid filled_translated_cells in
      and_then (take_cells idx tree_grid contained_cells) (\<lambda>values.
      Inr (select contained_cells (map (\<lambda>v. v = crown) values))))"

definition neighbor_offsets :: "cell list" where
  "neighbor_offsets = [(1, 0, 0), (-1, 0, 0), (0, 1, 0), (0, -1, 0), (0, 0, 1), (0, 0, -1)]"

text \<open>
  \<^verbatim>\<open>get_collision_edge_cells\<close>: all six neighbours of all collision cells, trimmed to
  the grid, of which those holding crown are returned.
\<close>

definition get_collision_edge_cells :: "indexing \<Rightarrow> grid \<Rightarrow> cell list \<Rightarrow> error + cell list" where
  "get_collision_edge_cells idx tree_grid collision_cells =
     (let neighbors = concat (map (\<lambda>c. map (vadd c) neighbor_offsets) collision_cells);
          neighbors = trim_mask tree_grid neighbors in
      and_then (take_cells idx tree_grid neighbors) (\<lambda>values.
      Inr (select neighbors (map (\<lambda>v. v = crown) values))))"

text \<open>
  \<^verbatim>\<open>get_cells_for_sphere\<close>. The rows of
  \<^verbatim>\<open>np.array(np.meshgrid(x, y, z)).T.reshape(-1, 3)\<close> run through \<open>z\<close> slowest and
  \<open>y\<close> fastest.
\<close>

definition get_cells_for_sphere :: "int \<Rightarrow> cell list" where
  "get_cells_for_sphere radius =
     filter (\<lambda>(x, y, z). x\<^sup>2 + y\<^sup>2 + z\<^sup>2 \<le> radius\<^sup>2)
       [(x, y, z). z \<leftarrow> [- radius .. radius], x \<leftarrow> [- radius .. radius], y \<leftarrow> [- radius .. radius]]"

text \<open>
  The distance transform \<^verbatim>\<open>scipy.ndimage.distance_transform_edt\<close> is not part of the
  repository: it is a parameter \<open>edt\<close>, any function from a boolean array to one
  distance for every index. Its result is an array of the shape of its argument. The
  distances are values of a linear order (no \<open>nan\<close>).
\<close>

definition distance_transform :: "(bool ndarray \<Rightarrow> cell \<Rightarrow> 'd) \<Rightarrow> bool ndarray \<Rightarrow> 'd ndarray" where
  "distance_transform edt m = \<lparr>shape = shape m, cells = edt m\<rparr>"

text \<open>\<^verbatim>\<open>assign_rest_of_collision_cells\<close>, lines 483 to 504.\<close>

definition assign_rest_of_collision_cells ::
  "indexing \<Rightarrow> (bool ndarray \<Rightarrow> cell \<Rightarrow> 'd :: linorder) \<Rightarrow> grid \<Rightarrow> grid \<Rightarrow> cell \<Rightarrow> error + grid \<times> grid"
where
  "assign_rest_of_collision_cells idx edt tree1_grid tree2_grid translation =
     (let tree1_collision_cells = argwhere tree1_grid collision;
          tree1_distances = distance_transform edt (non_owned_mask tree1_grid) in
      and_then (take_cells idx tree1_distances tree1_collision_cells) (\<lambda>tree1_conflicted_distances.
      let tree2_collision_cells = map (\<lambda>c. vadd c translation) tree1_collision_cells;
          tree2_distances = distance_transform edt (non_owned_mask tree2_grid) in
      and_then (take_cells idx tree2_distances tree2_collision_cells) (\<lambda>tree2_conflicted_distances.
      let tree1_cells_closer = select tree1_collision_cells
            (map2 (\<lambda>d1 d2. d1 \<le> d2) tree1_conflicted_distances tree2_conflicted_distances);
          tree1_cells_farther = select tree1_collision_cells
            (map2 (\<lambda>d1 d2. d1 > d2) tree1_conflicted_distances tree2_conflicted_distances) in
      and_then (put_cells idx tree1_grid tree1_cells_closer crown) (\<lambda>tree1_grid.
      and_then (put_cells idx tree1_grid tree1_cells_farther no_tree) (\<lambda>tree1_grid.
      let tree2_cells_closer = select tree2_collision_cells
            (map2 (\<lambda>d2 d1. d2 < d1) tree2_conflicted_distances tree1_conflicted_distances);
          tree2_cells_farther = select tree2_collision_cells
            (map2 (\<lambda>d2 d1. d2 \<ge> d1) tree2_conflicted_distances tree1_conflicted_distances) in
      and_then (put_cells idx tree2_grid tree2_cells_closer crown) (\<lambda>tree2_grid.
      and_then (put_cells idx tree2_grid tree2_cells_farther no_tree) (\<lambda>tree2_grid.
      Inr (tree1_grid, tree2_grid))))))))"

text \<open>
  The random draws of one growth round, in the order the round makes them:
  \<^verbatim>\<open>random.randint(min_radius, max_radius)\<close>, then \<^verbatim>\<open>random.choice\<close> on the edge
  cells of tree 1, then on those of tree 2. A draw is any natural number; \<open>randint\<close>
  and \<open>choice\<close> reduce it to the range the library function returns from.
\<close>

record draws =
  radius_draw :: nat
  choice1_draw :: nat
  choice2_draw :: nat

definition randint :: "int \<Rightarrow> int \<Rightarrow> nat \<Rightarrow> int" where
  "randint lo hi r = lo + int (r mod nat (hi - lo + 1))"

definition choice :: "'a list \<Rightarrow> nat \<Rightarrow> 'a" where
  "choice xs r = xs ! (r mod length xs)"

text \<open>One pass of the body of the loop \<^verbatim>\<open>for round in range(rounds)\<close>, lines 418 to 438.\<close>

definition growth_round ::
  "indexing \<Rightarrow> draws \<Rightarrow> cell list \<Rightarrow> cell list \<Rightarrow> cell \<Rightarrow> grid \<times> grid \<Rightarrow> error + grid \<times> grid"
where
  "growth_round idx d tree1_collision_edge_cells tree2_collision_edge_cells translation grids =
     (case grids of (tree1_grid, tree2_grid) \<Rightarrow>
      let sphere_radius = randint 1 3 (radius_draw d);
          sphere_cells = get_cells_for_sphere sphere_radius;
          collision_edge_cell = choice tree1_collision_edge_cells (choice1_draw d);
          m = trim_mask tree2_grid
                (map (\<lambda>s. vadd s (vadd collision_edge_cell translation)) sphere_cells);
          m = trim_mask tree1_grid (map (\<lambda>c. vsub c translation) m) in
      and_then (take_cells idx tree1_grid m) (\<lambda>values.
      let conflicted_contained_cells = select m (map (\<lambda>v. v = collision) values) in
      and_then (put_cells idx tree1_grid conflicted_contained_cells crown) (\<lambda>tree1_grid.
      let conflicted_contained_cells = map (\<lambda>c. vadd c translation) conflicted_contained_cells in
      and_then (put_cells idx tree2_grid conflicted_contained_cells no_tree) (\<lambda>tree2_grid.
      let collision_edge_cell = choice tree2_collision_edge_cells (choice2_draw d);
          m = trim_mask tree1_grid
                (map (\<lambda>s. vadd s (vsub collision_edge_cell translation)) sphere_cells);
          m = trim_mask tree2_grid (map (\<lambda>c. vadd c translation) m) in
      and_then (take_cells idx tree2_grid m) (\<lambda>values.
      let conflicted_contained_cells = select m (map (\<lambda>v. v = collision) values) in
      and_then (put_cells idx tree2_grid conflicted_contained_cells crown) (\<lambda>tree2_grid.
      let conflicted_contained_cells = map (\<lambda>c. vsub c translation) conflicted_contained_cells in
      and_then (put_cells idx tree1_grid conflicted_contained_cells no_tree) (\<lambda>tree1_grid.
      Inr (tree1_grid, tree2_grid))))))))"

text \<open>The loop itself: the rounds in \<open>rs\<close>, each with its own draws.\<close>

fun growth_rounds ::
  "indexing \<Rightarrow> (nat \<Rightarrow> draws) \<Rightarrow> cell list \<Rightarrow> cell list \<Rightarrow> cell \<Rightarrow> nat list \<Rightarrow> grid \<times> grid
     \<Rightarrow> error + grid \<times> grid"
where
  "growth_rounds idx rnd e1 e2 translation [] grids = Inr grids"
| "growth_rounds idx rnd e1 e2 translation (r # rs) grids =
     and_then (growth_round idx (rnd r) e1 e2 translation grids)
       (growth_rounds idx rnd e1 e2 translation rs)"

text \<open>\<^verbatim>\<open>assign_collision_cells\<close>, with \<^verbatim>\<open>rounds = 5\<close>.\<close>

definition assign_collision_cells ::
  "indexing \<Rightarrow> (bool ndarray \<Rightarrow> cell \<Rightarrow> 'd :: linorder) \<Rightarrow> (nat \<Rightarrow> draws) \<Rightarrow> grid \<Rightarrow> grid
     \<Rightarrow> cell list \<Rightarrow> cell list \<Rightarrow> cell \<Rightarrow> error + grid \<times> grid"
where
  "assign_collision_cells idx edt rnd tree1_grid tree2_grid
       tree1_collision_edge_cells tree2_collision_edge_cells translation =
     (if length tree1_collision_edge_cells = 0 \<or> length tree2_collision_edge_cells = 0
      then assign_rest_of_collision_cells idx edt tree1_grid tree2_grid translation
      else
        and_then (growth_rounds idx rnd tree1_collision_edge_cells tree2_collision_edge_cells
                    translation [0 ..< 5] (tree1_grid, tree2_grid)) (\<lambda>(tree1_grid, tree2_grid).
        assign_rest_of_collision_cells idx edt tree1_grid tree2_grid translation))"

text \<open>
  \<^verbatim>\<open>resolve_collision\<close>. The two grids are mutated in place; the model returns the two
  grids as they are when the call returns.
\<close>

definition resolve_collision ::
  "indexing \<Rightarrow> (bool ndarray \<Rightarrow> cell \<Rightarrow> 'd :: linorder) \<Rightarrow> (nat \<Rightarrow> draws) \<Rightarrow> tree \<Rightarrow> tree
     \<Rightarrow> error + grid \<times> grid"
where
  "resolve_collision idx edt rnd tree1 tree2 =
     (let tree1_grid = voxels tree1;
          tree2_grid = voxels tree2;
          translation = vsub (anchor tree1) (anchor tree2);
          tree1_filled_cells = argwhere tree1_grid crown;
          tree1_filled_cells = map (\<lambda>c. vadd c translation) tree1_filled_cells in
      and_then (get_colliding_cells idx tree2_grid tree1_filled_cells) (\<lambda>tree2_collision_cells.
      let tree1_collision_cells = map (\<lambda>c. vsub c translation) tree2_collision_cells in
      if length tree2_collision_cells = 0 then Inr (tree1_grid, tree2_grid)
      else
        and_then (get_collision_edge_cells idx tree1_grid
                    (map (\<lambda>c. vsub c translation) tree2_collision_cells))
          (\<lambda>tree1_collision_edge_cells.
        and_then (get_collision_edge_cells idx tree2_grid tree2_collision_cells)
          (\<lambda>tree2_collision_edge_cells.
        and_then (put_cells idx tree1_grid tree1_collision_cells collision) (\<lambda>tree1_grid.
        and_then (put_cells idx tree2_grid tree2_collision_cells collision) (\<lambda>tree2_grid.
        assign_collision_cells idx edt rnd tree1_grid tree2_grid
          tree1_collision_edge_cells tree2_collision_edge_cells translation))))))"

text \<open>
  The loop at the end of \<^verbatim>\<open>evaluate_forest\<close>, lines 280 to 283. The candidate pairs come
  from a k-d tree query and a shuffle, both outside the repository: the list is an
  argument. The code builds every pair as \<open>(min, max)\<close> of two different indices of
  \<^verbatim>\<open>self.trees\<close>. The draws of the \<open>n\<close>-th pair are \<open>rnd n\<close>.
\<close>

fun evaluate_pairs ::
  "indexing \<Rightarrow> (bool ndarray \<Rightarrow> cell \<Rightarrow> 'd :: linorder) \<Rightarrow> (nat \<Rightarrow> nat \<Rightarrow> draws) \<Rightarrow> nat
     \<Rightarrow> tree list \<Rightarrow> (nat \<times> nat) list \<Rightarrow> error + tree list"
where
  "evaluate_pairs idx edt rnd n forest [] = Inr forest"
| "evaluate_pairs idx edt rnd n forest (pair # pairs) =
     (if fst pair < length forest \<and> snd pair < length forest then
        and_then (resolve_collision idx edt (rnd n) (forest ! fst pair) (forest ! snd pair))
          (\<lambda>(tree1_grid, tree2_grid).
             evaluate_pairs idx edt rnd (Suc n)
               ((forest[fst pair := (forest ! fst pair)\<lparr>voxels := tree1_grid\<rparr>])
                  [snd pair := (forest ! snd pair)\<lparr>voxels := tree2_grid\<rparr>])
               pairs)
      else Inl IndexError)"

section \<open>Crown masks of the grid builder\<close>

text \<open>
  The left side of the ellipsoid test,
  \<^verbatim>\<open>(i/hw)**2 + (j/hw)**2 + (k/hh)**2\<close>, on integer arrays and Python integers
  \<open>hw\<close>, \<open>hh\<close>. The arithmetic is taken exactly, over the rationals; the rounding of
  binary64 is not modelled. A zero divisor makes numpy produce \<open>inf\<close> or \<open>nan\<close> in
  that term and so in the sum (\<open>None\<close> here); every comparison \<open>\<le>\<close> of such a sum
  with 0 or 1 is false.
\<close>

fun ellipsoid_value :: "int \<Rightarrow> int \<Rightarrow> cell \<Rightarrow> rat option" where
  "ellipsoid_value hw hh (i, j, k) =
     (if hw = 0 \<or> hh = 0 then None
      else Some ((of_int i / of_int hw)\<^sup>2 + (of_int j / of_int hw)\<^sup>2 + (of_int k / of_int hh)\<^sup>2))"

text \<open>Line 185, \<^verbatim>\<open>mask = ... <= 1\<close> of \<^verbatim>\<open>add_ellipsoid_tree\<close>.\<close>

definition ellipsoid_mask :: "int \<Rightarrow> int \<Rightarrow> cell \<Rightarrow> bool" where
  "ellipsoid_mask hw hh c = (case ellipsoid_value hw hh c of None \<Rightarrow> False | Some s \<Rightarrow> s \<le> 1)"

text \<open>
  Line 240, \<^verbatim>\<open>mask = ... <= 1 & (k >= 0)\<close> of \<^verbatim>\<open>add_spreading_tree\<close>. In Python
  \<^verbatim>\<open>&\<close> binds tighter than \<^verbatim>\<open><=\<close>: the sum is compared with the integer
  \<^verbatim>\<open>1 & (k >= 0)\<close>, the bitwise and of 1 with the truth value of \<open>k \<ge> 0\<close>.
\<close>

fun spreading_mask :: "int \<Rightarrow> int \<Rightarrow> cell \<Rightarrow> bool" where
  "spreading_mask hw hh (i, j, k) =
     (case ellipsoid_value hw hh (i, j, k) of
        None \<Rightarrow> False
      | Some s \<Rightarrow> s \<le> of_int ((1 :: int) AND of_bool (0 \<le> k)))"

section \<open>The grid builder\<close>

text \<open>
  \<^verbatim>\<open>self.cube_size = 0.5\<close>, set in \<^verbatim>\<open>__init__\<close> and never changed. The configuration
  values are Python floats; they are modelled as rationals and the arithmetic on them is
  exact (the rounding of binary64 is not modelled).
\<close>

definition cube_size :: rat where
  "cube_size = 1 / 2"

text \<open>\<^verbatim>\<open>int(x)\<close> of a float: truncation towards zero.\<close>

definition py_int :: "rat \<Rightarrow> int" where
  "py_int q = (if 0 \<le> q then \<lfloor>q\<rfloor> else \<lceil>q\<rceil>)"

text \<open>\<^verbatim>\<open>np.arange(start, stop)\<close> on integers; \<^verbatim>\<open>np.arange(n)\<close> is \<open>arange 0 n\<close>.\<close>

definition arange :: "int \<Rightarrow> int \<Rightarrow> int list" where
  "arange start stop = [start .. stop - 1]"

text \<open>
  \<^verbatim>\<open>np.zeros((nx, ny, nz), dtype=np.int8)\<close>: a negative dimension raises
  \<^verbatim>\<open>ValueError\<close>; the new array holds 0, the value of \<open>no_tree\<close>.
\<close>

definition np_zeros :: "int \<times> int \<times> int \<Rightarrow> error + grid" where
  "np_zeros dims =
     (case dims of (nx, ny, nz) \<Rightarrow>
        if nx < 0 \<or> ny < 0 \<or> nz < 0 then Inl ValueError
        else Inr \<lparr>shape = (nat nx, nat ny, nat nz), cells = (\<lambda>c. no_tree)\<rparr>)"

text \<open>
  A loop \<^verbatim>\<open>for i in range: tree_grid[xs, ys, i + offset] = v\<close>: one indexed assignment
  for every \<open>i\<close>, where \<open>layer i\<close> is the list of coordinates of that assignment.
\<close>

fun put_layers :: "indexing \<Rightarrow> grid \<Rightarrow> (int \<Rightarrow> cell list) \<Rightarrow> int list \<Rightarrow> CellType \<Rightarrow> error + grid" where
  "put_layers idx tree_grid layer [] v = Inr tree_grid"
| "put_layers idx tree_grid layer (i # rest) v =
     and_then (put_cells idx tree_grid (layer i) v) (\<lambda>tree_grid. put_layers idx tree_grid layer rest v)"

text \<open>
  \<^verbatim>\<open>add_stem\<close>. \<^verbatim>\<open>np.meshgrid(r, r, indexing='ij')\<close> followed by the selection with the
  boolean mask lists the pairs \<open>(j, k)\<close> with \<open>j\<close> slowest.
\<close>

definition add_stem :: "indexing \<Rightarrow> grid \<Rightarrow> rat \<Rightarrow> rat \<Rightarrow> error + grid" where
  "add_stem idx tree_grid stem_diameter stem_height =
     (case shape tree_grid of (nx, ny, nz) \<Rightarrow>
      let stem_radius = py_int (stem_diameter / 2 / cube_size);
          stem_height_range = arange 0 (py_int (stem_height / cube_size));
          stem_diameter_range = arange (- py_int (stem_diameter / cube_size))
                                       (py_int (stem_diameter / cube_size));
          selected = filter (\<lambda>(j, k). j\<^sup>2 + k\<^sup>2 \<le> stem_radius\<^sup>2)
                       [(j, k). j \<leftarrow> stem_diameter_range, k \<leftarrow> stem_diameter_range] in
      put_layers idx tree_grid
        (\<lambda>i. map (\<lambda>(j, k). (j + int (nx div 2), k + int (ny div 2), i)) selected)
        stem_height_range stem)"

text \<open>
  A tree configuration: the dictionary with the keys \<^verbatim>\<open>stem_height\<close>,
  \<^verbatim>\<open>stem_diameter\<close>, \<^verbatim>\<open>crown_width\<close>, \<^verbatim>\<open>crown_height\<close>, \<^verbatim>\<open>crown_offset\<close> and
  \<^verbatim>\<open>crown_type\<close>.
\<close>

record tree_configuration =
  stem_height :: rat
  stem_diameter :: rat
  crown_width :: rat
  crown_height :: rat
  crown_offset :: rat
  crown_type :: string

text \<open>\<^verbatim>\<open>add_ellipsoid_tree\<close>, lines 174 to 191.\<close>

definition add_ellipsoid_tree :: "indexing \<Rightarrow> grid \<Rightarrow> tree_configuration \<Rightarrow> error + grid" where
  "add_ellipsoid_tree idx tree_grid tree_configuration =
     (case shape tree_grid of (nx, ny, nz) \<Rightarrow>
      let half_width_cube_size = py_int (crown_width tree_configuration / 2 / cube_size);
          half_height_cube_size = py_int (crown_height tree_configuration / 2 / cube_size);
          crown_range_xy = arange (- half_width_cube_size) (half_width_cube_size + 1);
          crown_range_z = arange (- half_height_cube_size) (half_height_cube_size + 1);
          selected = filter (ellipsoid_mask half_width_cube_size half_height_cube_size)
                       [(i, j, k). i \<leftarrow> crown_range_xy, j \<leftarrow> crown_range_xy, k \<leftarrow> crown_range_z] in
      put_cells idx tree_grid
        (map (\<lambda>(i, j, k).
                (i + int (nx div 2), j + int (ny div 2),
                 k + py_int ((stem_height tree_configuration - crown_offset tree_configuration)
                               / cube_size + of_int half_height_cube_size)))
           selected)
        crown)"

text \<open>\<^verbatim>\<open>add_columnar_tree\<close>, lines 194 to 212.\<close>

definition add_columnar_tree :: "indexing \<Rightarrow> grid \<Rightarrow> tree_configuration \<Rightarrow> error + grid" where
  "add_columnar_tree idx tree_grid tree_configuration =
     (case shape tree_grid of (nx, ny, nz) \<Rightarrow>
      let crown_radius = py_int (crown_width tree_configuration / 2 / cube_size);
          crown_height_range = arange 0 (py_int (crown_height tree_configuration / cube_size));
          crown_range = arange (- crown_radius) (crown_radius + 1);
          selected = filter (\<lambda>(j, k). j\<^sup>2 + k\<^sup>2 \<le> crown_radius\<^sup>2)
                       [(j, k). j \<leftarrow> crown_range, k \<leftarrow> crown_range] in
      put_layers idx tree_grid
        (\<lambda>i. map (\<lambda>(j, k).
                (j + int (nx div 2), k + int (ny div 2),
                 i + py_int ((stem_height tree_configuration - crown_offset tree_configuration)
                               / cube_size)))
              selected)
        crown_height_range crown)"

text \<open>\<^verbatim>\<open>add_spreading_tree\<close>, lines 229 to 246.\<close>

definition add_spreading_tree :: "indexing \<Rightarrow> grid \<Rightarrow> tree_configuration \<Rightarrow> error + grid" where
  "add_spreading_tree idx tree_grid tree_configuration =
     (case shape tree_grid of (nx, ny, nz) \<Rightarrow>
      let half_width_cube_size = py_int (crown_width tree_configuration / 2 / cube_size);
          half_height_cube_size = py_int (crown_height tree_configuration / 2 / cube_size);
          crown_range_xy = arange (- half_width_cube_size) (half_width_cube_size + 1);
          crown_range_z = arange (- half_height_cube_size) (half_height_cube_size + 1);
          selected = filter (spreading_mask half_width_cube_size half_height_cube_size)
                       [(i, j, k). i \<leftarrow> crown_range_xy, j \<leftarrow> crown_range_xy, k \<leftarrow> crown_range_z] in
      put_cells idx tree_grid
        (map (\<lambda>(i, j, k).
                (i + int (nx div 2), j + int (ny div 2),
                 k + py_int ((stem_height tree_configuration - crown_offset tree_configuration)
                               / cube_size)))
           selected)
        crown)"

text \<open>
  The dictionary \<^verbatim>\<open>crown_type_to_function\<close> of \<^verbatim>\<open>add_tree\<close>; a key that is not in it raises
  \<^verbatim>\<open>KeyError\<close>.
\<close>

definition crown_type_to_function ::
  "string \<Rightarrow> error + (indexing \<Rightarrow> grid \<Rightarrow> tree_configuration \<Rightarrow> error + grid)"
where
  "crown_type_to_function key =
     (if key = ''ellipsoid'' then Inr add_ellipsoid_tree
      else if key = ''columnar'' then Inr add_columnar_tree
      else if key = ''spreading'' then Inr add_spreading_tree
      else Inl KeyError)"

text \<open>The fields of the class \<^verbatim>\<open>VoxelGrid\<close> that \<^verbatim>\<open>add_tree\<close> writes.\<close>

record VoxelGrid =
  evaluated_forest :: bool
  trees :: "tree list"

text \<open>
  \<^verbatim>\<open>add_tree\<close>. An exception leaves the object as it is when the exception is raised:
  the result is then \<open>Inl\<close> of the exception and that state. The code has no check of
  the configuration before \<^verbatim>\<open>np.zeros\<close>.
\<close>

definition add_tree ::
  "indexing \<Rightarrow> VoxelGrid \<Rightarrow> rat \<times> rat \<times> rat \<Rightarrow> nat \<Rightarrow> tree_configuration
     \<Rightarrow> error \<times> VoxelGrid + VoxelGrid"
where
  "add_tree idx self position configuration_identifier tree_configuration =
     (let self = self\<lparr>evaluated_forest := False\<rparr> in
      case
        and_then (np_zeros
           (py_int (crown_width tree_configuration / cube_size + 1) + 1,
            py_int (crown_width tree_configuration / cube_size + 1) + 1,
            py_int ((stem_height tree_configuration + crown_height tree_configuration
                       - crown_offset tree_configuration) / cube_size + 1) + 1)) (\<lambda>tree_grid.
        and_then (add_stem idx tree_grid (stem_diameter tree_configuration)
                    (stem_height tree_configuration)) (\<lambda>tree_grid.
        and_then (crown_type_to_function (crown_type tree_configuration)) (\<lambda>add_crown.
        add_crown idx tree_grid tree_configuration)))
      of
        Inl e \<Rightarrow> Inl (e, self)
      | Inr tree_grid \<Rightarrow>
          (case position of (x, y, z) \<Rightarrow>
             Inr (self\<lparr>trees := trees self @
                   [\<lparr>anchor = (py_int (x / cube_size), py_int (y / cube_size), py_int (z / cube_size)),
                     config_id = configuration_identifier, voxels = tree_grid\<rparr>]\<rparr>)))"

section \<open>Greedy meshing\<close>

text \<open>
  The dictionaries of sets of \<^verbatim>\<open>capture_rows\<close> and \<^verbatim>\<open>capture_planes\<close>: \<^verbatim>\<open>rows\<close> maps
  \<open>(y, z)\<close> to a set of segments \<open>(x_start, x_end)\<close>, \<^verbatim>\<open>planes\<close> maps \<open>z\<close> to a set of
  rectangles \<open>(x_start, y_start, x_end, y_end)\<close>. A Python dictionary keeps its keys in
  the order of their insertion: it is a list of pairs of a key and its set. A set is a list
  of its elements; the order in which Python iterates over a set is not fixed, and the
  element that \<^verbatim>\<open>next(iter(s))\<close> returns is chosen by a parameter of the loops below.
\<close>

type_synonym ('k, 's) setdict = "('k \<times> 's list) list"

text \<open>\<^verbatim>\<open>if k in d: d[k].add(s) else: d[k] = {s}\<close>.\<close>

fun dict_add :: "'k \<Rightarrow> 's \<Rightarrow> ('k, 's) setdict \<Rightarrow> ('k, 's) setdict" where
  "dict_add k s [] = [(k, [s])]"
| "dict_add k s ((k', segments) # d) =
     (if k' = k then (k', List.insert s segments) # d else (k', segments) # dict_add k s d)"

text \<open>\<^verbatim>\<open>d[k].remove(s)\<close>, followed by \<^verbatim>\<open>del d[k]\<close> when the set has become empty.\<close>

fun remove_segment :: "'k \<Rightarrow> 's \<Rightarrow> ('k, 's) setdict \<Rightarrow> ('k, 's) setdict" where
  "remove_segment k s [] = []"
| "remove_segment k s ((k', segments) # d) =
     (if k' = k then (if removeAll s segments = [] then d else (k', removeAll s segments) # d)
      else (k', segments) # remove_segment k s d)"

text \<open>
  The common body of \<^verbatim>\<open>row_matches_segment_length\<close> and
  \<^verbatim>\<open>plane_matches_segment_length\<close>: when the key is in the dictionary and the segment
  in its set, the segment is removed and the result is \<open>True\<close>; otherwise the dictionary
  is unchanged and the result is \<open>False\<close>.
\<close>

definition pop_segment :: "'k \<Rightarrow> 's \<Rightarrow> ('k, 's) setdict \<Rightarrow> bool \<times> ('k, 's) setdict" where
  "pop_segment k s d =
     (case map_of d k of
        None \<Rightarrow> (False, d)
      | Some segments \<Rightarrow> if s \<in> set segments then (True, remove_segment k s d) else (False, d))"

text \<open>The number of segments in a dictionary, the measure of the loops.\<close>

definition dict_size :: "('k, 's) setdict \<Rightarrow> nat" where
  "dict_size d = sum_list (map (\<lambda>(k, segments). length segments) d)"

lemma dict_size_remove_segment:
  "map_of d k = Some segments \<Longrightarrow> s \<in> set segments \<Longrightarrow> dict_size (remove_segment k s d) < dict_size d"
proof (induction d)
  case Nil
  then show ?case by simp
next
  case (Cons a d)
  obtain k' ss where a: "a = (k', ss)" by (cases a)
  show ?case
  proof (cases "k' = k")
    case True
    then have "ss = segments" using Cons.prems(1) a by simp
    then have "length (removeAll s ss) < length ss"
      using Cons.prems(2) by (simp add: length_removeAll_less)
    then show ?thesis using True a by (auto simp: dict_size_def)
  next
    case False
    then show ?thesis using Cons a by (auto simp: dict_size_def)
  qed
qed

lemma dict_size_pop_segment:
  "fst (pop_segment k s d) \<Longrightarrow> dict_size (snd (pop_segment k s d)) < dict_size d"
  by (auto simp: pop_segment_def dict_size_remove_segment split: option.splits if_splits)

text \<open>
  The loops \<^verbatim>\<open>while self.row_matches_segment_length(...)\<close> of \<^verbatim>\<open>capture_plane\<close>, one
  counting down and one counting up, and the same two loops of \<^verbatim>\<open>capture_quad\<close>:
  \<open>key offset\<close> is the key looked up at an offset, \<open>step\<close> is \<open>-1\<close> or \<open>1\<close>. The result
  is the offset at which the match failed, and the dictionary.
\<close>

function scan :: "(int \<Rightarrow> 'k) \<Rightarrow> 's \<Rightarrow> int \<Rightarrow> int \<Rightarrow> ('k, 's) setdict \<Rightarrow> int \<times> ('k, 's) setdict" where
  "scan key s step offset d =
     (if fst (pop_segment (key offset) s d)
      then scan key s step (offset + step) (snd (pop_segment (key offset) s d))
      else (offset, d))"
  by pat_completeness auto
termination
  by (relation "measure (\<lambda>(key, s, step, offset, d). dict_size d)")
    (simp_all add: dict_size_pop_segment)

declare scan.simps [simp del]

text \<open>\<^verbatim>\<open>row_matches_segment_length\<close>: the result and the dictionary after the call.\<close>

definition row_matches_segment_length ::
  "int \<Rightarrow> int \<Rightarrow> int \<Rightarrow> int \<Rightarrow> (int \<times> int, int \<times> int) setdict \<Rightarrow> bool \<times> (int \<times> int, int \<times> int) setdict"
where
  "row_matches_segment_length y_position z_position x_start x_end rows =
     pop_segment (y_position, z_position) (x_start, x_end) rows"

text \<open>\<^verbatim>\<open>capture_plane\<close>.\<close>

definition capture_plane ::
  "int \<Rightarrow> int \<Rightarrow> int \<Rightarrow> int \<Rightarrow> (int \<times> int, int \<times> int) setdict
     \<Rightarrow> (int \<times> int \<times> int \<times> int) \<times> (int \<times> int, int \<times> int) setdict"
where
  "capture_plane y_position z_position x_start x_end rows =
     (let (offset_minus, rows) =
            scan (\<lambda>offset. (y_position + offset, z_position)) (x_start, x_end) (- 1) 0 rows;
          offset_minus = offset_minus + 1;
          (offset_plus, rows) =
            scan (\<lambda>offset. (y_position + offset, z_position)) (x_start, x_end) 1 1 rows;
          offset_plus = offset_plus - 1
      in ((x_start, y_position + offset_minus, x_end, y_position + offset_plus), rows))"

text \<open>
  \<^verbatim>\<open>(instance_matrix == CellType.crown.value) * 1\<close>, read with the zeros that
  \<^verbatim>\<open>np.diff(..., axis=0, append=0, prepend=0)\<close> puts before and after each line.
\<close>

definition crown_indicator :: "grid \<Rightarrow> cell \<Rightarrow> int" where
  "crown_indicator g c = (if in_bounds g c \<and> cells g c = crown then 1 else 0)"

text \<open>\<^verbatim>\<open>diff_x[x, y, z]\<close>, for \<open>x\<close> from 0 to the length of the first axis inclusive.\<close>

definition diff_x :: "grid \<Rightarrow> cell \<Rightarrow> int" where
  "diff_x g c = (case c of (x, y, z) \<Rightarrow> crown_indicator g (x, y, z) - crown_indicator g (x - 1, y, z))"

text \<open>
  An element of \<^verbatim>\<open>border_positions\<close>: \<open>(x, y, z, flag)\<close>, the flag 0 for the start of a
  run and 1 for its end.
\<close>

type_synonym border = "int \<times> int \<times> int \<times> nat"

text \<open>The sort key \<^verbatim>\<open>lambda x: (x[0], x[3])\<close>.\<close>

definition border_key :: "border \<Rightarrow> int \<times> nat" where
  "border_key b = (case b of (x, y, z, flag) \<Rightarrow> (x, flag))"

text \<open>
  The loop \<^verbatim>\<open>for begin_or_end in sorted_start_and_end\<close> of \<^verbatim>\<open>capture_rows\<close>;
  \<^verbatim>\<open>start_map[...]\<close> raises \<^verbatim>\<open>KeyError\<close> on a key that is not there.
\<close>

fun rows_loop ::
  "border list \<Rightarrow> (int \<times> int \<rightharpoonup> int) \<Rightarrow> (int \<times> int, int \<times> int) setdict
     \<Rightarrow> error + (int \<times> int, int \<times> int) setdict"
where
  "rows_loop [] start_map rows = Inr rows"
| "rows_loop ((x, y, z, flag) # rest) start_map rows =
     (if flag = 0 then rows_loop rest (start_map((y, z) \<mapsto> x)) rows
      else (case start_map (y, z) of
              None \<Rightarrow> Inl KeyError
            | Some start \<Rightarrow> rows_loop rest start_map (dict_add (y, z) (start, x) rows)))"

text \<open>
  \<^verbatim>\<open>np.where\<close> lists the indices of \<^verbatim>\<open>diff_x\<close> in row-major order; the starts come
  first, then the ends with \<open>x - 1\<close>.
\<close>

definition border_positions :: "grid \<Rightarrow> border list" where
  "border_positions g =
     (case shape g of (nx, ny, nz) \<Rightarrow>
      let diff_indices = [(x, y, z). x \<leftarrow> [0 .. int nx], y \<leftarrow> [0 .. int ny - 1], z \<leftarrow> [0 .. int nz - 1]];
          starts = filter (\<lambda>c. diff_x g c > 0) diff_indices;
          ends = filter (\<lambda>c. diff_x g c < 0) diff_indices
      in map (\<lambda>(x, y, z). (x, y, z, 0)) starts @ map (\<lambda>(x, y, z). (x - 1, y, z, 1)) ends)"

text \<open>\<^verbatim>\<open>capture_rows\<close>. Python's \<^verbatim>\<open>sorted\<close> is stable, as \<open>sort_key\<close> is.\<close>

definition capture_rows :: "grid \<Rightarrow> error + (int \<times> int, int \<times> int) setdict" where
  "capture_rows instance_matrix =
     (let sorted_start_and_end = sort_key border_key (border_positions instance_matrix)
      in rows_loop sorted_start_and_end Map.empty [])"

lemma dict_size_scan: "dict_size (snd (scan key s step offset d)) \<le> dict_size d"
proof (induction key s step offset d rule: scan.induct)
  case (1 key s step offset d)
  show ?case
  proof (cases "fst (pop_segment (key offset) s d)")
    case True
    then show ?thesis
      using 1 dict_size_pop_segment [OF True] by (subst scan.simps) simp
  next
    case False
    then show ?thesis by (subst scan.simps) simp
  qed
qed

lemma dict_size_scan_less:
  "fst (pop_segment (key offset) s d) \<Longrightarrow> dict_size (snd (scan key s step offset d)) < dict_size d"
  using dict_size_scan [of key s step "offset + step" "snd (pop_segment (key offset) s d)"]
    dict_size_pop_segment [of "key offset" s d]
  by (subst scan.simps) simp

lemma dict_size_capture_plane:
  assumes "fst (pop_segment (y, z) (xs, xe) rows)"
  shows "dict_size (snd (capture_plane y z xs xe rows)) < dict_size rows"
proof -
  obtain o1 r1 where s1: "scan (\<lambda>offset. (y + offset, z)) (xs, xe) (- 1) 0 rows = (o1, r1)"
    by (cases "scan (\<lambda>offset. (y + offset, z)) (xs, xe) (- 1) 0 rows")
  obtain o2 r2 where s2: "scan (\<lambda>offset. (y + offset, z)) (xs, xe) 1 1 r1 = (o2, r2)"
    by (cases "scan (\<lambda>offset. (y + offset, z)) (xs, xe) 1 1 r1")
  have "dict_size r1 < dict_size rows"
    using dict_size_scan_less [of "\<lambda>offset. (y + offset, z)" 0 "(xs, xe)" rows "- 1"] assms s1
    by simp
  moreover have "dict_size r2 \<le> dict_size r1"
    using dict_size_scan [of "\<lambda>offset. (y + offset, z)" "(xs, xe)" 1 1 r1] s2 by simp
  ultimately show ?thesis
    by (simp add: capture_plane_def Let_def s1 s2)
qed

text \<open>
  The loop \<^verbatim>\<open>while len(rows) > 0\<close> of \<^verbatim>\<open>capture_planes\<close>. The first item of the
  dictionary is taken, and of its set the element that \<open>pick n\<close> selects in the \<open>n\<close>-th
  pass; \<^verbatim>\<open>next(iter(row_set))\<close> on an empty set raises \<^verbatim>\<open>StopIteration\<close>.
\<close>

function capture_planes_loop ::
  "(nat \<Rightarrow> nat) \<Rightarrow> nat \<Rightarrow> (int \<times> int, int \<times> int) setdict \<Rightarrow> (int, int \<times> int \<times> int \<times> int) setdict
     \<Rightarrow> error + (int, int \<times> int \<times> int \<times> int) setdict"
where
  "capture_planes_loop pick n [] planes = Inr planes"
| "capture_planes_loop pick n (((y_position, z_position), row_set) # rest) planes =
     (if row_set = [] then Inl StopIteration
      else
        (let segment = row_set ! (pick n mod length row_set);
             captured = capture_plane y_position z_position (fst segment) (snd segment)
                          (((y_position, z_position), row_set) # rest)
         in capture_planes_loop pick (Suc n) (snd captured)
              (dict_add z_position (fst captured) planes)))"
  by pat_completeness auto
termination
proof (relation "measure (\<lambda>(pick, n, rows, planes). dict_size rows)", goal_cases)
  case 1
  then show ?case by simp
next
  case (2 pick n y z row_set rest planes segment captured)
  have "segment \<in> set row_set"
    using 2(1,2) by simp
  then have "fst (pop_segment (y, z) (fst segment, snd segment) (((y, z), row_set) # rest))"
    by (simp add: pop_segment_def)
  from dict_size_capture_plane [OF this] show ?case
    using 2 by simp
qed

declare capture_planes_loop.simps [simp del]

text \<open>\<^verbatim>\<open>capture_planes\<close>.\<close>

definition capture_planes :: "(nat \<Rightarrow> nat) \<Rightarrow> grid \<Rightarrow> error + (int, int \<times> int \<times> int \<times> int) setdict" where
  "capture_planes pick instance_matrix =
     and_then (capture_rows instance_matrix) (\<lambda>rows. capture_planes_loop pick 0 rows [])"

text \<open>\<^verbatim>\<open>plane_matches_segment_length\<close>.\<close>

definition plane_matches_segment_length ::
  "int \<Rightarrow> int \<Rightarrow> int \<Rightarrow> int \<Rightarrow> int \<Rightarrow> (int, int \<times> int \<times> int \<times> int) setdict
     \<Rightarrow> bool \<times> (int, int \<times> int \<times> int \<times> int) setdict"
where
  "plane_matches_segment_length z_position x_start x_end y_start y_end planes =
     pop_segment z_position (x_start, y_start, x_end, y_end) planes"

text \<open>A box \<open>(x_start, y_start, z_start, x_end, y_end, z_end)\<close>, both corners included.\<close>

type_synonym quad = "int \<times> int \<times> int \<times> int \<times> int \<times> int"

text \<open>\<^verbatim>\<open>capture_quad\<close>.\<close>

definition capture_quad ::
  "int \<Rightarrow> int \<Rightarrow> int \<Rightarrow> int \<Rightarrow> int \<Rightarrow> (int, int \<times> int \<times> int \<times> int) setdict
     \<Rightarrow> quad \<times> (int, int \<times> int \<times> int \<times> int) setdict"
where
  "capture_quad z_position x_start y_start x_end y_end planes =
     (let (offset_minus, planes) =
            scan (\<lambda>offset. z_position + offset) (x_start, y_start, x_end, y_end) (- 1) 0 planes;
          offset_minus = offset_minus + 1;
          (offset_plus, planes) =
            scan (\<lambda>offset. z_position + offset) (x_start, y_start, x_end, y_end) 1 1 planes;
          offset_plus = offset_plus - 1
      in ((x_start, y_start, z_position + offset_minus, x_end, y_end, z_position + offset_plus),
          planes))"

lemma dict_size_capture_quad:
  assumes "fst (pop_segment z (xs, ys, xe, ye) planes)"
  shows "dict_size (snd (capture_quad z xs ys xe ye planes)) < dict_size planes"
proof -
  obtain o1 r1 where s1: "scan (\<lambda>offset. z + offset) (xs, ys, xe, ye) (- 1) 0 planes = (o1, r1)"
    by (cases "scan (\<lambda>offset. z + offset) (xs, ys, xe, ye) (- 1) 0 planes")
  obtain o2 r2 where s2: "scan (\<lambda>offset. z + offset) (xs, ys, xe, ye) 1 1 r1 = (o2, r2)"
    by (cases "scan (\<lambda>offset. z + offset) (xs, ys, xe, ye) 1 1 r1")
  have "dict_size r1 < dict_size planes"
    using dict_size_scan_less [of "\<lambda>offset. z + offset" 0 "(xs, ys, xe, ye)" planes "- 1"] assms s1
    by simp
  moreover have "dict_size r2 \<le> dict_size r1"
    using dict_size_scan [of "\<lambda>offset. z + offset" "(xs, ys, xe, ye)" 1 1 r1] s2 by simp
  ultimately show ?thesis
    by (simp add: capture_quad_def Let_def s1 s2)
qed

text \<open>The loop \<^verbatim>\<open>while len(planes) > 0\<close> of \<^verbatim>\<open>capture_quads\<close>.\<close>

function capture_quads_loop ::
  "(nat \<Rightarrow> nat) \<Rightarrow> nat \<Rightarrow> (int, int \<times> int \<times> int \<times> int) setdict \<Rightarrow> quad list \<Rightarrow> error + quad list"
where
  "capture_quads_loop pick n [] quads = Inr quads"
| "capture_quads_loop pick n ((z_position, plane_set) # rest) quads =
     (if plane_set = [] then Inl StopIteration
      else
        (let plane = plane_set ! (pick n mod length plane_set);
             captured = (case plane of (x_start, y_start, x_end, y_end) \<Rightarrow>
                           capture_quad z_position x_start y_start x_end y_end
                             ((z_position, plane_set) # rest))
         in capture_quads_loop pick (Suc n) (snd captured) (quads @ [fst captured])))"
  by pat_completeness auto
termination
proof (relation "measure (\<lambda>(pick, n, planes, quads). dict_size planes)", goal_cases)
  case 1
  then show ?case by simp
next
  case (2 pick n z plane_set rest quads plane captured)
  obtain xs ys xe ye where p: "plane_set ! (pick n mod length plane_set) = (xs, ys, xe, ye)"
    by (cases "plane_set ! (pick n mod length plane_set)")
  have "plane_set ! (pick n mod length plane_set) \<in> set plane_set"
    using 2(1) by simp
  then have "fst (pop_segment z (xs, ys, xe, ye) ((z, plane_set) # rest))"
    by (simp add: pop_segment_def p)
  from dict_size_capture_quad [OF this] show ?case
    using 2 by (simp add: p)
qed

declare capture_quads_loop.simps [simp del]

text \<open>
  \<^verbatim>\<open>capture_quads\<close>, for the grid \<^verbatim>\<open>self.trees[index][-1]\<close>. The two parameters choose
  the elements that the two loops take from their sets.
\<close>

definition capture_quads :: "(nat \<Rightarrow> nat) \<Rightarrow> (nat \<Rightarrow> nat) \<Rightarrow> grid \<Rightarrow> error + quad list" where
  "capture_quads pick_row pick_plane instance_matrix =
     and_then (capture_planes pick_row instance_matrix) (\<lambda>planes.
       capture_quads_loop pick_plane 0 planes [])"

section \<open>Vocabulary of the properties\<close>

text \<open>
  An indexing rule that agrees with numpy on the indices inside an axis. Both
  \<open>np_index\<close> and \<open>checked_index\<close> are such rules.
\<close>

definition idx_ok :: "indexing \<Rightarrow> bool" where
  "idx_ok idx \<longleftrightarrow> (\<forall>n i. 0 \<le> i \<and> i < int n \<longrightarrow> idx n i = Inr i)"

text \<open>The array \<open>a\<close> with the value \<open>v\<close> stored at every coordinate of \<open>S\<close>.\<close>

definition paint :: "'a ndarray \<Rightarrow> cell set \<Rightarrow> 'a \<Rightarrow> 'a ndarray" where
  "paint a S v = a\<lparr>cells := (\<lambda>c. if c \<in> S then v else cells a c)\<rparr>"

definition inverse_maps :: "(cell \<Rightarrow> cell) \<Rightarrow> (cell \<Rightarrow> cell) \<Rightarrow> bool" where
  "inverse_maps f g \<longleftrightarrow> (\<forall>c. g (f c) = c) \<and> (\<forall>c. f (g c) = c)"

text \<open>No cell of the grid holds the collision marker.\<close>

definition no_markers :: "grid \<Rightarrow> bool" where
  "no_markers a \<longleftrightarrow> (\<forall>c. in_bounds a c \<longrightarrow> cells a c \<noteq> collision)"

text \<open>
  The grid \<open>a\<close> has the shape of \<open>a0\<close>, and each of its cells that holds crown or the
  marker held crown in \<open>a0\<close>.
\<close>

definition crown_within :: "grid \<Rightarrow> grid \<Rightarrow> bool" where
  "crown_within a a0 \<longleftrightarrow>
     shape a = shape a0 \<and>
     (\<forall>c. in_bounds a c \<and> (cells a c = crown \<or> cells a c = collision) \<longrightarrow> cells a0 c = crown)"

text \<open>Every marker of \<open>a\<close> has its counterpart, under \<open>f\<close>, inside \<open>b\<close> and marked.\<close>

definition paired :: "(cell \<Rightarrow> cell) \<Rightarrow> grid \<Rightarrow> grid \<Rightarrow> bool" where
  "paired f a b \<longleftrightarrow>
     (\<forall>c. in_bounds a c \<and> cells a c = collision \<longrightarrow> in_bounds b (f c) \<and> cells b (f c) = collision)"

text \<open>No voxel is crown in both grids.\<close>

definition exclusive :: "(cell \<Rightarrow> cell) \<Rightarrow> grid \<Rightarrow> grid \<Rightarrow> bool" where
  "exclusive f a b \<longleftrightarrow>
     (\<forall>c. in_bounds a c \<and> in_bounds b (f c) \<and> cells a c = crown \<longrightarrow> cells b (f c) \<noteq> crown)"

text \<open>
  The invariant of a resolution that started on the grids \<open>a0\<close> and \<open>b0\<close> and has
  reached \<open>a\<close> and \<open>b\<close>; \<open>f\<close> translates from the first grid to the second and \<open>g\<close>
  back.
\<close>

definition linked :: "(cell \<Rightarrow> cell) \<Rightarrow> (cell \<Rightarrow> cell) \<Rightarrow> grid \<Rightarrow> grid \<Rightarrow> grid \<Rightarrow> grid \<Rightarrow> bool" where
  "linked f g a0 b0 a b \<longleftrightarrow>
     crown_within a a0 \<and> crown_within b b0 \<and> paired f a b \<and> paired g b a \<and> exclusive f a b"

text \<open>The crown cells of the first grid that land on a crown cell of the second.\<close>

definition overlap :: "grid \<Rightarrow> grid \<Rightarrow> cell \<Rightarrow> cell set" where
  "overlap g1 g2 t =
     {c. in_bounds g1 c \<and> cells g1 c = crown \<and> in_bounds g2 (vadd c t) \<and> cells g2 (vadd c t) = crown}"

definition count_crown :: "grid \<Rightarrow> nat" where
  "count_crown g = length (argwhere g crown)"

subsection \<open>Concrete inputs\<close>

text \<open>
  Three crown cells in a row; two trees with this grid one step apart, and a third one far
  away; a grid of two marked cells; a distance function and a sequence of draws.
\<close>

definition example_grid :: grid where
  "example_grid = \<lparr>shape = (3, 1, 1), cells = (\<lambda>c. crown)\<rparr>"

definition example_tree1 :: tree where
  "example_tree1 = \<lparr>anchor = (1, 0, 0), config_id = 0, voxels = example_grid\<rparr>"

definition example_tree2 :: tree where
  "example_tree2 = \<lparr>anchor = (0, 0, 0), config_id = 0, voxels = example_grid\<rparr>"

definition example_far_tree :: tree where
  "example_far_tree = \<lparr>anchor = (10, 0, 0), config_id = 0, voxels = example_grid\<rparr>"

definition example_marked_grid :: grid where
  "example_marked_grid = \<lparr>shape = (2, 1, 1), cells = (\<lambda>c. collision)\<rparr>"

definition example_edt :: "bool ndarray \<Rightarrow> cell \<Rightarrow> int" where
  "example_edt m c = (case c of (x, y, z) \<Rightarrow> (x + 1)\<^sup>2 + (y + 1)\<^sup>2 + (z + 1)\<^sup>2)"

definition example_rnd :: "nat \<Rightarrow> draws" where
  "example_rnd n = \<lparr>radius_draw = n, choice1_draw = n, choice2_draw = Suc n\<rparr>"





subsection \<open>Meshing\<close>

text \<open>The pairs of a key and a segment of its set, and the dictionaries the code builds.\<close>

definition entries :: "('k, 's) setdict \<Rightarrow> ('k \<times> 's) set" where
  "entries d = {(k, s). \<exists>segments. (k, segments) \<in> set d \<and> s \<in> set segments}"

definition wf_dict :: "('k, 's) setdict \<Rightarrow> bool" where
  "wf_dict d \<longleftrightarrow> distinct (map fst d) \<and> (\<forall>segments \<in> snd ` set d. segments \<noteq> [])"

text \<open>The cells of a row segment, of a rectangle of a plane, and of a box.\<close>

definition row_cells :: "(int \<times> int) \<times> (int \<times> int) \<Rightarrow> cell set" where
  "row_cells r = (case r of ((y, z), (x_start, x_end)) \<Rightarrow> {(x, y, z) | x. x_start \<le> x \<and> x \<le> x_end})"

definition plane_cells :: "int \<times> (int \<times> int \<times> int \<times> int) \<Rightarrow> cell set" where
  "plane_cells p = (case p of (z, (x_start, y_start, x_end, y_end)) \<Rightarrow>
     {(x, y, z) | x y. x_start \<le> x \<and> x \<le> x_end \<and> y_start \<le> y \<and> y \<le> y_end})"

definition box_cells :: "quad \<Rightarrow> cell set" where
  "box_cells q = (case q of (x_start, y_start, z_start, x_end, y_end, z_end) \<Rightarrow>
     {(x, y, z) | x y z. x_start \<le> x \<and> x \<le> x_end \<and> y_start \<le> y \<and> y \<le> y_end \<and>
        z_start \<le> z \<and> z \<le> z_end})"

text \<open>No two members of a family, or boxes of a list, have a cell in common.\<close>

definition disjoint_family :: "('a \<Rightarrow> cell set) \<Rightarrow> 'a set \<Rightarrow> bool" where
  "disjoint_family cov E \<longleftrightarrow> (\<forall>a \<in> E. \<forall>b \<in> E. a \<noteq> b \<longrightarrow> cov a \<inter> cov b = {})"

definition disjoint_boxes :: "quad list \<Rightarrow> bool" where
  "disjoint_boxes quads \<longleftrightarrow>
     (\<forall>i < length quads. \<forall>j < length quads. i \<noteq> j \<longrightarrow>
        box_cells (quads ! i) \<inter> box_cells (quads ! j) = {})"

text \<open>
  The maximal runs of crown cells along the first axis, and what the loop of
  \<^verbatim>\<open>capture_rows\<close> computes from a list of borders.
\<close>

definition is_crown :: "grid \<Rightarrow> cell \<Rightarrow> bool" where
  "is_crown g c \<longleftrightarrow> in_bounds g c \<and> cells g c = crown"

definition maximal_runs :: "grid \<Rightarrow> ((int \<times> int) \<times> (int \<times> int)) set" where
  "maximal_runs g =
     {((y, z), (s, e)) | y z s e.
        s \<le> e \<and> (\<forall>x \<in> {s .. e}. is_crown g (x, y, z)) \<and>
        \<not> is_crown g (s - 1, y, z) \<and> \<not> is_crown g (e + 1, y, z)}"

fun start_map_after :: "border list \<Rightarrow> (int \<times> int \<rightharpoonup> int) \<Rightarrow> (int \<times> int \<rightharpoonup> int)" where
  "start_map_after [] start_map = start_map"
| "start_map_after ((x, y, z, flag) # rest) start_map =
     start_map_after rest (if flag = 0 then start_map((y, z) \<mapsto> x) else start_map)"

definition row_entries :: "border list \<Rightarrow> (int \<times> int \<rightharpoonup> int) \<Rightarrow> ((int \<times> int) \<times> (int \<times> int)) set" where
  "row_entries L start_map =
     {((y, z), (s, x)) | P x y z flag Q s.
        L = P @ (x, y, z, flag) # Q \<and> flag \<noteq> 0 \<and> start_map_after P start_map (y, z) = Some s}"

definition starts_defined :: "border list \<Rightarrow> (int \<times> int \<rightharpoonup> int) \<Rightarrow> bool" where
  "starts_defined L start_map \<longleftrightarrow>
     (\<forall>P x y z flag Q. L = P @ (x, y, z, flag) # Q \<and> flag \<noteq> 0 \<longrightarrow>
        start_map_after P start_map (y, z) \<noteq> None)"

text \<open>A grid of 3 by 2 by 2 cells, all crown but two.\<close>

definition mesh_example :: grid where
  "mesh_example =
     \<lparr>shape = (3, 2, 2),
      cells = (\<lambda>c. if c = (1, 0, 0) \<or> c = (1, 1, 1) then no_tree else crown)\<rparr>"

section \<open>The masks: properties\<close>

subsection \<open>The fallback's mask\<close>



subsection \<open>The spreading crown\<close>




section \<open>Collision resolution: lemmas\<close>

lemma idx_ok_np_index: "idx_ok np_index"
  by (simp add: idx_ok_def np_index_def)


lemma and_then_Inr [simp]: "and_then (Inr x) f = f x"
  by (simp add: and_then_def)

lemma and_then_Inl [simp]: "and_then (Inl e) f = Inl e"
  by (simp add: and_then_def)

lemma in_bounds_cells_update [simp]: "in_bounds (a\<lparr>cells := f\<rparr>) c = in_bounds a c"
  by (simp add: in_bounds_def)

lemma in_bounds_shape: "shape a = shape b \<Longrightarrow> in_bounds a c = in_bounds b c"
  by (simp add: in_bounds_def)

lemma shape_paint [simp]: "shape (paint a S v) = shape a"
  by (simp add: paint_def)

lemma in_bounds_paint [simp]: "in_bounds (paint a S v) c = in_bounds a c"
  by (simp add: paint_def)

lemma cells_paint [simp]: "cells (paint a S v) c = (if c \<in> S then v else cells a c)"
  by (simp add: paint_def)

lemma locate_in_bounds: "idx_ok idx \<Longrightarrow> in_bounds a c \<Longrightarrow> locate idx a c = Inr c"
  by (auto simp: idx_ok_def in_bounds_def locate_def split: prod.splits)

lemma take_cells_in_bounds:
  "idx_ok idx \<Longrightarrow> \<forall>c \<in> set cs. in_bounds a c \<Longrightarrow> take_cells idx a cs = Inr (map (cells a) cs)"
  by (induction cs) (simp_all add: locate_in_bounds)

lemma put_cells_in_bounds:
  "idx_ok idx \<Longrightarrow> \<forall>c \<in> set cs. in_bounds a c \<Longrightarrow> put_cells idx a cs v = Inr (paint a (set cs) v)"
proof (induction cs arbitrary: a)
  case Nil
  then show ?case by (simp add: paint_def)
next
  case (Cons c cs)
  have "put_cells idx (a\<lparr>cells := (cells a)(c := v)\<rparr>) cs v
          = Inr (paint (a\<lparr>cells := (cells a)(c := v)\<rparr>) (set cs) v)"
    using Cons.prems by (intro Cons.IH) simp_all
  moreover have "paint (a\<lparr>cells := (cells a)(c := v)\<rparr>) (set cs) v = paint a (set (c # cs)) v"
    by (auto simp: paint_def fun_eq_iff)
  ultimately show ?case using Cons.prems by (simp add: locate_in_bounds)
qed

lemma select_map: "select (map f xs) (map P xs) = map f (filter P xs)"
  by (induction xs) (simp_all add: select_def)

lemma select_map_id: "select xs (map P xs) = filter P xs"
  using select_map [of "\<lambda>x. x" xs P] by simp

lemma map2_same: "map2 R (map p xs) (map q xs) = map (\<lambda>x. R (p x) (q x)) xs"
  by (induction xs) simp_all

lemma set_indices [simp]: "set (indices a) = {c. in_bounds a c}"
proof -
  obtain nx ny nz where s: "shape a = (nx, ny, nz)" by (cases "shape a")
  show ?thesis by (force simp: indices_def in_bounds_def s image_iff)
qed

lemma set_argwhere [simp]: "set (argwhere a v) = {c. in_bounds a c \<and> cells a c = v}"
  by (auto simp: argwhere_def)

lemma set_trim_mask [simp]: "set (trim_mask a cs) = {c \<in> set cs. in_bounds a c}"
  by (auto simp: trim_mask_def)

lemma vadd_vsub [simp]: "vadd (vsub c t) t = c"
  by (cases c; cases t) simp

lemma vsub_vadd [simp]: "vsub (vadd c t) t = c"
  by (cases c; cases t) simp

lemma get_colliding_cells_eq:
  "idx_ok idx \<Longrightarrow> get_colliding_cells idx g cs = Inr (filter (\<lambda>c. in_bounds g c \<and> cells g c = crown) cs)"
  by (simp add: get_colliding_cells_def Let_def take_cells_in_bounds select_map_id trim_mask_def
      conj_commute cong: conj_cong)

lemma get_collision_edge_cells_eq:
  "idx_ok idx \<Longrightarrow> get_collision_edge_cells idx g cs =
     Inr (filter (\<lambda>c. in_bounds g c \<and> cells g c = crown)
            (concat (map (\<lambda>c. map (vadd c) neighbor_offsets) cs)))"
  by (simp add: get_collision_edge_cells_def Let_def take_cells_in_bounds select_map_id trim_mask_def
      conj_commute cong: conj_cong)

lemma inv_gf: "inverse_maps f g \<Longrightarrow> g (f c) = c"
  unfolding inverse_maps_def by blast

lemma inv_fg: "inverse_maps f g \<Longrightarrow> f (g c) = c"
  unfolding inverse_maps_def by blast

lemma inv_inj: "inverse_maps f g \<Longrightarrow> f c = f c' \<Longrightarrow> c = c'"
  by (metis inv_gf)

lemma inv_image:
  assumes "inverse_maps f g"
  shows "f c \<in> f ` S \<longleftrightarrow> c \<in> S"
proof
  assume "f c \<in> f ` S"
  then obtain c' where "c' \<in> S" "f c = f c'" by blast
  then show "c \<in> S" using inv_inj [OF assms] by blast
next
  assume "c \<in> S"
  then show "f c \<in> f ` S" by blast
qed

lemma inv_image':
  assumes "inverse_maps f g"
  shows "c \<in> f ` S \<longleftrightarrow> g c \<in> S"
proof
  assume "c \<in> f ` S"
  then obtain c' where c': "c' \<in> S" "c = f c'" by blast
  then have "g c = c'" using inv_gf [OF assms] by simp
  then show "g c \<in> S" using c' by simp
next
  assume "g c \<in> S"
  then have "f (g c) \<in> f ` S" by blast
  then show "c \<in> f ` S" using inv_fg [OF assms] by simp
qed

lemma inverse_maps_sym: "inverse_maps f g \<Longrightarrow> inverse_maps g f"
  unfolding inverse_maps_def by blast

lemma inverse_maps_translation: "inverse_maps (\<lambda>c. vadd c t) (\<lambda>c. vsub c t)"
  unfolding inverse_maps_def using vadd_vsub vsub_vadd by blast

lemma pairedD:
  "paired f a b \<Longrightarrow> in_bounds a c \<Longrightarrow> cells a c = collision \<Longrightarrow> in_bounds b (f c) \<and> cells b (f c) = collision"
  unfolding paired_def by blast

lemma exclusiveD:
  "exclusive f a b \<Longrightarrow> in_bounds a c \<Longrightarrow> in_bounds b (f c) \<Longrightarrow> cells a c = crown \<Longrightarrow> cells b (f c) \<noteq> crown"
  unfolding exclusive_def by blast

lemma crown_withinD:
  "crown_within a a0 \<Longrightarrow> in_bounds a c \<Longrightarrow> cells a c = crown \<or> cells a c = collision \<Longrightarrow> cells a0 c = crown"
  unfolding crown_within_def by blast

lemma crown_within_shape: "crown_within a a0 \<Longrightarrow> shape a = shape a0"
  unfolding crown_within_def by blast

lemma exclusive_sym:
  assumes "inverse_maps f g" "exclusive f a b"
  shows "exclusive g b a"
  unfolding exclusive_def
proof (intro allI impI)
  fix c
  assume h: "in_bounds b c \<and> in_bounds a (g c) \<and> cells b c = crown"
  then have "in_bounds b (f (g c))" "cells b (f (g c)) = crown"
    using inv_fg [OF assms(1)] by simp_all
  then show "cells a (g c) \<noteq> crown"
    using exclusiveD [OF assms(2), of "g c"] h by blast
qed

lemma linked_sym: "inverse_maps f g \<Longrightarrow> linked f g a0 b0 a b \<Longrightarrow> linked g f b0 a0 b a"
  unfolding linked_def using exclusive_sym by blast

lemma within_paint_winner:
  assumes "crown_within a a0" "S \<subseteq> {c. in_bounds a c \<and> cells a c = collision}"
  shows "crown_within (paint a S crown) a0"
  unfolding crown_within_def
proof (intro conjI allI impI)
  show "shape (paint a S crown) = shape a0"
    using assms(1) by (simp add: crown_within_shape)
next
  fix c
  assume h: "in_bounds (paint a S crown) c \<and>
    (cells (paint a S crown) c = crown \<or> cells (paint a S crown) c = collision)"
  show "cells a0 c = crown"
  proof (cases "c \<in> S")
    case True
    then have "in_bounds a c" "cells a c = collision" using assms(2) by auto
    then show ?thesis using crown_withinD [OF assms(1)] by blast
  next
    case False
    then show ?thesis using h crown_withinD [OF assms(1), of c] by simp
  qed
qed

lemma within_paint_loser:
  assumes "crown_within b b0"
  shows "crown_within (paint b T no_tree) b0"
  unfolding crown_within_def
proof (intro conjI allI impI)
  show "shape (paint b T no_tree) = shape b0"
    using assms by (simp add: crown_within_shape)
next
  fix c
  assume h: "in_bounds (paint b T no_tree) c \<and>
    (cells (paint b T no_tree) c = crown \<or> cells (paint b T no_tree) c = collision)"
  then have "c \<notin> T" by (auto split: if_splits)
  then show "cells b0 c = crown"
    using h crown_withinD [OF assms, of c] by simp
qed

lemma paired_award_fwd:
  assumes "inverse_maps f g" "paired f a b"
  shows "paired f (paint a S crown) (paint b (f ` S) no_tree)"
  unfolding paired_def
proof (intro allI impI)
  fix c
  assume h: "in_bounds (paint a S crown) c \<and> cells (paint a S crown) c = collision"
  then have c: "c \<notin> S" "in_bounds a c" "cells a c = collision"
    by (auto split: if_splits)
  then have "in_bounds b (f c)" "cells b (f c) = collision"
    using pairedD [OF assms(2)] by blast+
  moreover have "f c \<notin> f ` S"
    using c(1) inv_image [OF assms(1)] by blast
  ultimately show "in_bounds (paint b (f ` S) no_tree) (f c) \<and>
      cells (paint b (f ` S) no_tree) (f c) = collision"
    by simp
qed

lemma paired_award_bwd:
  assumes "inverse_maps f g" "paired g b a"
  shows "paired g (paint b (f ` S) no_tree) (paint a S crown)"
  unfolding paired_def
proof (intro allI impI)
  fix c
  assume h: "in_bounds (paint b (f ` S) no_tree) c \<and> cells (paint b (f ` S) no_tree) c = collision"
  then have c: "c \<notin> f ` S" "in_bounds b c" "cells b c = collision"
    by (auto split: if_splits)
  then have "in_bounds a (g c)" "cells a (g c) = collision"
    using pairedD [OF assms(2)] by blast+
  moreover have "g c \<notin> S"
    using c(1) inv_image' [OF assms(1)] by blast
  ultimately show "in_bounds (paint a S crown) (g c) \<and> cells (paint a S crown) (g c) = collision"
    by simp
qed

lemma exclusive_award:
  assumes "inverse_maps f g" "exclusive f a b"
  shows "exclusive f (paint a S crown) (paint b (f ` S) no_tree)"
  unfolding exclusive_def
proof (intro allI impI)
  fix c
  assume h: "in_bounds (paint a S crown) c \<and> in_bounds (paint b (f ` S) no_tree) (f c) \<and>
     cells (paint a S crown) c = crown"
  show "cells (paint b (f ` S) no_tree) (f c) \<noteq> crown"
  proof (cases "c \<in> S")
    case True
    then show ?thesis by simp
  next
    case False
    then have "f c \<notin> f ` S" using inv_image [OF assms(1)] by blast
    moreover have "cells b (f c) \<noteq> crown"
      using h False exclusiveD [OF assms(2), of c] by simp
    ultimately show ?thesis by simp
  qed
qed

lemma linked_award:
  assumes "inverse_maps f g" "linked f g a0 b0 a b"
    and "S \<subseteq> {c. in_bounds a c \<and> cells a c = collision}"
  shows "linked f g a0 b0 (paint a S crown) (paint b (f ` S) no_tree)"
proof -
  from assms(2) have w: "crown_within a a0" "crown_within b b0" "paired f a b" "paired g b a"
      "exclusive f a b"
    unfolding linked_def by simp_all
  show ?thesis
    unfolding linked_def
    by (intro conjI within_paint_winner [OF w(1) assms(3)] within_paint_loser [OF w(2)]
        paired_award_fwd [OF assms(1) w(3)] paired_award_bwd [OF assms(1) w(4)]
        exclusive_award [OF assms(1) w(5)])
qed

lemma linked_shapes: "linked f g a0 b0 a b \<Longrightarrow> shape a = shape a0 \<and> shape b = shape b0"
  unfolding linked_def by (simp add: crown_within_shape)

lemma award_step:
  assumes ok: "idx_ok idx" and inv: "inverse_maps f g" and l: "linked f g a0 b0 a b"
    and m: "\<forall>c \<in> set m. in_bounds a c \<and> in_bounds b (f c)"
    and k: "\<And>a' b'. linked f g a0 b0 a' b' \<Longrightarrow> \<exists>r. K a' b' = Inr r \<and> Q r"
  shows "\<exists>r. and_then (take_cells idx a m) (\<lambda>vs.
           and_then (put_cells idx a (select m (map (\<lambda>v. v = collision) vs)) crown) (\<lambda>a'.
           and_then (put_cells idx b (map f (select m (map (\<lambda>v. v = collision) vs))) no_tree) (\<lambda>b'.
           K a' b'))) = Inr r \<and> Q r"
proof -
  define cc where "cc = filter (\<lambda>c. cells a c = collision) m"
  have t: "take_cells idx a m = Inr (map (cells a) m)"
    using ok m by (simp add: take_cells_in_bounds)
  have sel: "select m (map ((\<lambda>v. v = collision) \<circ> cells a) m) = cc"
    by (simp add: cc_def select_map_id comp_def)
  have cc_sub: "set cc \<subseteq> {c. in_bounds a c \<and> cells a c = collision}"
    using m by (auto simp: cc_def)
  have p1: "put_cells idx a cc crown = Inr (paint a (set cc) crown)"
    using ok cc_sub by (intro put_cells_in_bounds) auto
  have p2: "put_cells idx b (map f cc) no_tree = Inr (paint b (f ` set cc) no_tree)"
    using put_cells_in_bounds [OF ok, of "map f cc" b no_tree] m by (auto simp: cc_def)
  have "linked f g a0 b0 (paint a (set cc) crown) (paint b (f ` set cc) no_tree)"
    by (rule linked_award [OF inv l cc_sub])
  from k [OF this] show ?thesis
    by (simp add: t sel p1 p2)
qed

lemma growth_round_linked:
  assumes ok: "idx_ok idx"
    and l: "linked (\<lambda>c. vadd c t) (\<lambda>c. vsub c t) a0 b0 g1 g2"
  shows "\<exists>h1 h2. growth_round idx d e1 e2 t (g1, g2) = Inr (h1, h2) \<and>
           linked (\<lambda>c. vadd c t) (\<lambda>c. vsub c t) a0 b0 h1 h2"
proof -
  let ?F = "\<lambda>c. vadd c t" and ?G = "\<lambda>c. vsub c t"
  have inv: "inverse_maps ?F ?G" by (rule inverse_maps_translation)
  have inv': "inverse_maps ?G ?F" by (rule inverse_maps_sym [OF inv])
  have "\<exists>r. growth_round idx d e1 e2 t (g1, g2) = Inr r \<and>
          (case r of (h1, h2) \<Rightarrow> linked ?F ?G a0 b0 h1 h2)"
    unfolding growth_round_def Let_def prod.case
  proof (rule award_step [OF ok inv l])
    show "\<forall>c\<in>set (trim_mask g1 (map ?G (trim_mask g2
            (map (\<lambda>s. vadd s (vadd (choice e1 (choice1_draw d)) t))
               (get_cells_for_sphere (randint 1 3 (radius_draw d))))))).
          in_bounds g1 c \<and> in_bounds g2 (vadd c t)"
      by auto
  next
    fix a' b'
    assume l': "linked ?F ?G a0 b0 a' b'"
    have l'': "linked ?G ?F b0 a0 b' a'" by (rule linked_sym [OF inv l'])
    show "\<exists>r. and_then (take_cells idx b' (trim_mask b' (map ?F (trim_mask a'
             (map (\<lambda>s. vadd s (vsub (choice e2 (choice2_draw d)) t))
                (get_cells_for_sphere (randint 1 3 (radius_draw d)))))))) (\<lambda>values.
           and_then (put_cells idx b' (select (trim_mask b' (map ?F (trim_mask a'
             (map (\<lambda>s. vadd s (vsub (choice e2 (choice2_draw d)) t))
                (get_cells_for_sphere (randint 1 3 (radius_draw d)))))))
                (map (\<lambda>v. v = collision) values)) crown) (\<lambda>tree2_grid.
           and_then (put_cells idx a' (map ?G (select (trim_mask b' (map ?F (trim_mask a'
             (map (\<lambda>s. vadd s (vsub (choice e2 (choice2_draw d)) t))
                (get_cells_for_sphere (randint 1 3 (radius_draw d)))))))
                (map (\<lambda>v. v = collision) values))) no_tree) (\<lambda>tree1_grid.
           Inr (tree1_grid, tree2_grid)))) = Inr r \<and>
           (case r of (h1, h2) \<Rightarrow> linked ?F ?G a0 b0 h1 h2)"
    proof (rule award_step [OF ok inv' l''])
      show "\<forall>c\<in>set (trim_mask b' (map ?F (trim_mask a'
             (map (\<lambda>s. vadd s (vsub (choice e2 (choice2_draw d)) t))
                (get_cells_for_sphere (randint 1 3 (radius_draw d))))))).
            in_bounds b' c \<and> in_bounds a' (vsub c t)"
        by auto
    next
      fix b'' a''
      assume "linked ?G ?F b0 a0 b'' a''"
      then have "linked ?F ?G a0 b0 a'' b''" by (rule linked_sym [OF inv'])
      then show "\<exists>r. Inr (a'', b'') = Inr r \<and> (case r of (h1, h2) \<Rightarrow> linked ?F ?G a0 b0 h1 h2)"
        by simp
    qed
  qed
  then show ?thesis by auto
qed

lemma growth_rounds_linked:
  assumes ok: "idx_ok idx"
  shows "linked (\<lambda>c. vadd c t) (\<lambda>c. vsub c t) a0 b0 g1 g2 \<Longrightarrow>
         \<exists>h1 h2. growth_rounds idx rnd e1 e2 t rs (g1, g2) = Inr (h1, h2) \<and>
           linked (\<lambda>c. vadd c t) (\<lambda>c. vsub c t) a0 b0 h1 h2"
proof (induction rs arbitrary: g1 g2)
  case Nil
  then show ?case by simp
next
  case (Cons r rs)
  from growth_round_linked [OF ok Cons.prems, of "rnd r" e1 e2]
  obtain k1 k2 where k: "growth_round idx (rnd r) e1 e2 t (g1, g2) = Inr (k1, k2)"
    "linked (\<lambda>c. vadd c t) (\<lambda>c. vsub c t) a0 b0 k1 k2"
    by blast
  from Cons.IH [OF k(2)] show ?case by (simp add: k(1))
qed

lemma in_bounds_distance_transform [simp]:
  "in_bounds (distance_transform edt (non_owned_mask g)) c = in_bounds g c"
  by (simp add: in_bounds_def distance_transform_def non_owned_mask_def)

lemma cells_distance_transform [simp]:
  "cells (distance_transform edt m) = edt m"
  by (simp add: distance_transform_def)

lemma assign_rest_eq:
  fixes edt :: "bool ndarray \<Rightarrow> cell \<Rightarrow> 'd :: linorder"
  assumes ok: "idx_ok idx"
    and into: "\<forall>c. in_bounds g1 c \<and> cells g1 c = collision \<longrightarrow> in_bounds g2 (vadd c t)"
  shows "assign_rest_of_collision_cells idx edt g1 g2 t =
    Inr (paint (paint g1 {c. in_bounds g1 c \<and> cells g1 c = collision \<and>
                     edt (non_owned_mask g1) c \<le> edt (non_owned_mask g2) (vadd c t)} crown)
               {c. in_bounds g1 c \<and> cells g1 c = collision \<and>
                     edt (non_owned_mask g1) c > edt (non_owned_mask g2) (vadd c t)} no_tree,
         paint (paint g2 ((\<lambda>c. vadd c t) ` {c. in_bounds g1 c \<and> cells g1 c = collision \<and>
                     edt (non_owned_mask g2) (vadd c t) < edt (non_owned_mask g1) c}) crown)
               ((\<lambda>c. vadd c t) ` {c. in_bounds g1 c \<and> cells g1 c = collision \<and>
                     edt (non_owned_mask g2) (vadd c t) \<ge> edt (non_owned_mask g1) c}) no_tree)"
proof -
  define cs where "cs = argwhere g1 collision"
  define p where "p = edt (non_owned_mask g1)"
  define q where "q = (\<lambda>c. edt (non_owned_mask g2) (vadd c t))"
  have cs_set: "set cs = {c. in_bounds g1 c \<and> cells g1 c = collision}"
    by (simp add: cs_def)
  have t1: "take_cells idx (distance_transform edt (non_owned_mask g1)) cs = Inr (map p cs)"
    using ok by (simp add: take_cells_in_bounds cs_set p_def)
  have t2: "take_cells idx (distance_transform edt (non_owned_mask g2)) (map (\<lambda>c. vadd c t) cs)
              = Inr (map q cs)"
    using ok into by (simp add: take_cells_in_bounds cs_set q_def comp_def)
  have s1: "select cs (map2 (\<lambda>d1 d2. d1 \<le> d2) (map p cs) (map q cs)) = filter (\<lambda>c. p c \<le> q c) cs"
    by (simp add: map2_same select_map_id)
  have s2: "select cs (map2 (\<lambda>d1 d2. d1 > d2) (map p cs) (map q cs)) = filter (\<lambda>c. p c > q c) cs"
    by (simp add: map2_same select_map_id)
  have s3: "select (map (\<lambda>c. vadd c t) cs) (map2 (\<lambda>d2 d1. d2 < d1) (map q cs) (map p cs))
              = map (\<lambda>c. vadd c t) (filter (\<lambda>c. q c < p c) cs)"
    by (simp add: map2_same select_map)
  have s4: "select (map (\<lambda>c. vadd c t) cs) (map2 (\<lambda>d2 d1. d2 \<ge> d1) (map q cs) (map p cs))
              = map (\<lambda>c. vadd c t) (filter (\<lambda>c. q c \<ge> p c) cs)"
    by (simp add: map2_same select_map)
  have p1: "put_cells idx g1 (filter (\<lambda>c. p c \<le> q c) cs) crown
              = Inr (paint g1 (set (filter (\<lambda>c. p c \<le> q c) cs)) crown)"
    using ok by (intro put_cells_in_bounds) (auto simp: cs_set)
  have p2: "put_cells idx (paint g1 (set (filter (\<lambda>c. p c \<le> q c) cs)) crown)
               (filter (\<lambda>c. p c > q c) cs) no_tree
              = Inr (paint (paint g1 (set (filter (\<lambda>c. p c \<le> q c) cs)) crown)
                      (set (filter (\<lambda>c. p c > q c) cs)) no_tree)"
    using ok by (intro put_cells_in_bounds) (auto simp: cs_set)
  have p3: "put_cells idx g2 (map (\<lambda>c. vadd c t) (filter (\<lambda>c. q c < p c) cs)) crown
              = Inr (paint g2 (set (map (\<lambda>c. vadd c t) (filter (\<lambda>c. q c < p c) cs))) crown)"
    using ok into by (intro put_cells_in_bounds) (auto simp: cs_set)
  have p4: "put_cells idx (paint g2 (set (map (\<lambda>c. vadd c t) (filter (\<lambda>c. q c < p c) cs))) crown)
               (map (\<lambda>c. vadd c t) (filter (\<lambda>c. q c \<ge> p c) cs)) no_tree
              = Inr (paint (paint g2 (set (map (\<lambda>c. vadd c t) (filter (\<lambda>c. q c < p c) cs))) crown)
                      (set (map (\<lambda>c. vadd c t) (filter (\<lambda>c. q c \<ge> p c) cs))) no_tree)"
    using ok into by (intro put_cells_in_bounds) (auto simp: cs_set)
  have e1: "set (filter (\<lambda>c. p c \<le> q c) cs) = {c. in_bounds g1 c \<and> cells g1 c = collision \<and> p c \<le> q c}"
    by (auto simp: cs_set)
  have e2: "set (filter (\<lambda>c. p c > q c) cs) = {c. in_bounds g1 c \<and> cells g1 c = collision \<and> p c > q c}"
    by (auto simp: cs_set)
  have e3: "set (map (\<lambda>c. vadd c t) (filter (\<lambda>c. q c < p c) cs))
              = (\<lambda>c. vadd c t) ` {c. in_bounds g1 c \<and> cells g1 c = collision \<and> q c < p c}"
    by (auto simp: cs_set)
  have e4: "set (map (\<lambda>c. vadd c t) (filter (\<lambda>c. q c \<ge> p c) cs))
              = (\<lambda>c. vadd c t) ` {c. in_bounds g1 c \<and> cells g1 c = collision \<and> q c \<ge> p c}"
    by (auto simp: cs_set)
  have "assign_rest_of_collision_cells idx edt g1 g2 t =
     Inr (paint (paint g1 (set (filter (\<lambda>c. p c \<le> q c) cs)) crown)
                      (set (filter (\<lambda>c. p c > q c) cs)) no_tree,
          paint (paint g2 (set (map (\<lambda>c. vadd c t) (filter (\<lambda>c. q c < p c) cs))) crown)
                      (set (map (\<lambda>c. vadd c t) (filter (\<lambda>c. q c \<ge> p c) cs))) no_tree)"
    unfolding assign_rest_of_collision_cells_def Let_def cs_def [symmetric]
    by (simp only: t1 t2 and_then_Inr s1 s2 s3 s4 p1 p2 p3 p4)
  then show ?thesis
    unfolding e1 e2 e3 e4 by (simp add: p_def q_def)
qed

lemma assign_rest_cells:
  fixes edt :: "bool ndarray \<Rightarrow> cell \<Rightarrow> 'd :: linorder"
  assumes ok: "idx_ok idx"
    and into: "\<forall>c. in_bounds g1 c \<and> cells g1 c = collision \<longrightarrow> in_bounds g2 (vadd c t)"
  shows "\<exists>k1 k2. assign_rest_of_collision_cells idx edt g1 g2 t = Inr (k1, k2) \<and>
             (\<forall>c. in_bounds g1 c \<and> cells g1 c = collision \<longrightarrow>
                (if edt (non_owned_mask g1) c \<le> edt (non_owned_mask g2) (vadd c t)
                 then cells k1 c = crown \<and> cells k2 (vadd c t) = no_tree
                 else cells k1 c = no_tree \<and> cells k2 (vadd c t) = crown))"
proof -
  let ?F = "\<lambda>c. vadd c t"
  define p where "p = edt (non_owned_mask g1)"
  define q where "q = (\<lambda>c. edt (non_owned_mask g2) (vadd c t))"
  define A where "A = {c. in_bounds g1 c \<and> cells g1 c = collision \<and> p c \<le> q c}"
  define B where "B = {c. in_bounds g1 c \<and> cells g1 c = collision \<and> q c < p c}"
  define k1 where "k1 = paint (paint g1 A crown) B no_tree"
  define k2 where "k2 = paint (paint g2 (?F ` B) crown) (?F ` A) no_tree"
  have inv: "inverse_maps ?F (\<lambda>c. vsub c t)" by (rule inverse_maps_translation)
  have res: "assign_rest_of_collision_cells idx edt g1 g2 t = Inr (k1, k2)"
    unfolding assign_rest_eq [OF ok into] k1_def k2_def A_def B_def p_def q_def
    by (simp add: not_le [symmetric] conj_commute)
  have "if p c \<le> q c then cells k1 c = crown \<and> cells k2 (vadd c t) = no_tree
        else cells k1 c = no_tree \<and> cells k2 (vadd c t) = crown"
    if c: "in_bounds g1 c \<and> cells g1 c = collision" for c
  proof (cases "p c \<le> q c")
    case True
    then have "c \<in> A" "c \<notin> B" using c by (auto simp: A_def B_def)
    then show ?thesis using True by (simp add: k1_def k2_def inv_image [OF inv])
  next
    case False
    then have "c \<notin> A" "c \<in> B" using c by (auto simp: A_def B_def)
    then show ?thesis using False by (simp add: k1_def k2_def inv_image [OF inv])
  qed
  then show ?thesis
    using res unfolding p_def q_def by blast
qed

lemma no_markersD: "no_markers a \<Longrightarrow> in_bounds a c \<Longrightarrow> cells a c \<noteq> collision"
  unfolding no_markers_def by blast

lemma linked_into:
  "linked f g a0 b0 a b \<Longrightarrow> \<forall>c. in_bounds a c \<and> cells a c = collision \<longrightarrow> in_bounds b (f c)"
  unfolding linked_def paired_def by blast

lemma assign_rest_linked:
  fixes edt :: "bool ndarray \<Rightarrow> cell \<Rightarrow> 'd :: linorder"
  assumes ok: "idx_ok idx"
    and l: "linked (\<lambda>c. vadd c t) (\<lambda>c. vsub c t) a0 b0 g1 g2"
  shows "\<exists>h1 h2. assign_rest_of_collision_cells idx edt g1 g2 t = Inr (h1, h2) \<and>
           linked (\<lambda>c. vadd c t) (\<lambda>c. vsub c t) a0 b0 h1 h2 \<and> no_markers h1 \<and> no_markers h2"
proof -
  let ?F = "\<lambda>c. vadd c t" and ?G = "\<lambda>c. vsub c t"
  define p where "p = edt (non_owned_mask g1)"
  define q where "q = (\<lambda>c. edt (non_owned_mask g2) (vadd c t))"
  define A where "A = {c. in_bounds g1 c \<and> cells g1 c = collision \<and> p c \<le> q c}"
  define B where "B = {c. in_bounds g1 c \<and> cells g1 c = collision \<and> q c < p c}"
  define h1 where "h1 = paint (paint g1 A crown) B no_tree"
  define h2 where "h2 = paint (paint g2 (?F ` B) crown) (?F ` A) no_tree"
  have inv: "inverse_maps ?F ?G" by (rule inverse_maps_translation)
  from l have w1: "crown_within g1 a0" and w2: "crown_within g2 b0" and pf: "paired ?F g1 g2"
    and pg: "paired ?G g2 g1" and ex: "exclusive ?F g1 g2"
    unfolding linked_def by simp_all
  have AB: "A \<inter> B = {}" by (auto simp: A_def B_def)
  have M: "in_bounds g1 c \<Longrightarrow> cells g1 c = collision \<Longrightarrow> c \<in> A \<or> c \<in> B" for c
    by (auto simp: A_def B_def)
  have Asub: "c \<in> A \<Longrightarrow> in_bounds g1 c \<and> cells g1 c = collision" for c by (simp add: A_def)
  have Bsub: "c \<in> B \<Longrightarrow> in_bounds g1 c \<and> cells g1 c = collision" for c by (simp add: B_def)
  have res: "assign_rest_of_collision_cells idx edt g1 g2 t = Inr (h1, h2)"
    unfolding assign_rest_eq [OF ok linked_into [OF l]] h1_def h2_def A_def B_def p_def q_def
    by (simp add: not_le [symmetric] conj_commute)
  have c1: "cells h1 c = (if c \<in> B then no_tree else if c \<in> A then crown else cells g1 c)" for c
    by (simp add: h1_def)
  have c2: "cells h2 c = (if ?G c \<in> A then no_tree else if ?G c \<in> B then crown else cells g2 c)" for c
    by (simp add: h2_def inv_image' [OF inv])
  have b1 [simp]: "in_bounds h1 c = in_bounds g1 c" for c by (simp add: h1_def)
  have b2 [simp]: "in_bounds h2 c = in_bounds g2 c" for c by (simp add: h2_def)
  have nm1: "no_markers h1"
    unfolding no_markers_def using M by (auto simp: c1)
  have nm2: "no_markers h2"
    unfolding no_markers_def
  proof (intro allI impI)
    fix c assume "in_bounds h2 c"
    then have ib: "in_bounds g2 c" by simp
    show "cells h2 c \<noteq> collision"
    proof
      assume "cells h2 c = collision"
      then have n: "?G c \<notin> A" "?G c \<notin> B" "cells g2 c = collision"
        by (auto simp: c2 split: if_splits)
      from pairedD [OF pg ib n(3)] M n(1,2) show False by blast
    qed
  qed
  have cw1: "crown_within h1 a0"
    unfolding crown_within_def
  proof (intro conjI allI impI)
    show "shape h1 = shape a0" using w1 by (simp add: h1_def crown_within_shape)
  next
    fix c assume h: "in_bounds h1 c \<and> (cells h1 c = crown \<or> cells h1 c = collision)"
    show "cells a0 c = crown"
      using h Asub [of c] crown_withinD [OF w1, of c] by (auto simp: c1 split: if_splits)
  qed
  have cw2: "crown_within h2 b0"
    unfolding crown_within_def
  proof (intro conjI allI impI)
    show "shape h2 = shape b0" using w2 by (simp add: h2_def crown_within_shape)
  next
    fix c assume h: "in_bounds h2 c \<and> (cells h2 c = crown \<or> cells h2 c = collision)"
    show "cells b0 c = crown"
    proof (cases "?G c \<in> B")
      case True
      from Bsub [OF True] pairedD [OF pf, of "?G c"] have "cells g2 c = collision" by simp
      then show ?thesis using h crown_withinD [OF w2, of c] by simp
    next
      case False
      then show ?thesis using h crown_withinD [OF w2, of c] by (auto simp: c2 split: if_splits)
    qed
  qed
  have pf': "paired ?F h1 h2"
    unfolding paired_def using no_markersD [OF nm1] by blast
  have pg': "paired ?G h2 h1"
    unfolding paired_def using no_markersD [OF nm2] by blast
  have ex': "exclusive ?F h1 h2"
    unfolding exclusive_def
  proof (intro allI impI)
    fix c assume h: "in_bounds h1 c \<and> in_bounds h2 (vadd c t) \<and> cells h1 c = crown"
    show "cells h2 (vadd c t) \<noteq> crown"
    proof (cases "c \<in> A")
      case True
      then show ?thesis by (simp add: c2)
    next
      case False
      then have "c \<notin> B" "cells g1 c = crown" using h by (auto simp: c1 split: if_splits)
      then show ?thesis
        using False h exclusiveD [OF ex, of c] by (simp add: c2)
    qed
  qed
  show ?thesis
    using res nm1 nm2 cw1 cw2 pf' pg' ex' unfolding linked_def by blast
qed

lemma linked_mark:
  assumes nm1: "no_markers g1" and nm2: "no_markers g2"
    and inv: "inverse_maps f g"
    and K: "K = {c. in_bounds g1 c \<and> cells g1 c = crown \<and> in_bounds g2 (f c) \<and> cells g2 (f c) = crown}"
  shows "linked f g g1 g2 (paint g1 K collision) (paint g2 (f ` K) collision)"
proof -
  have cw1: "crown_within (paint g1 K collision) g1"
    unfolding crown_within_def using no_markersD [OF nm1] by (auto simp: K)
  have cw2: "crown_within (paint g2 (f ` K) collision) g2"
    unfolding crown_within_def using no_markersD [OF nm2] by (auto simp: K)
  have pf: "paired f (paint g1 K collision) (paint g2 (f ` K) collision)"
    unfolding paired_def
  proof (intro allI impI)
    fix c assume "in_bounds (paint g1 K collision) c \<and> cells (paint g1 K collision) c = collision"
    then have "c \<in> K" using no_markersD [OF nm1, of c] by (auto split: if_splits)
    then show "in_bounds (paint g2 (f ` K) collision) (f c) \<and>
               cells (paint g2 (f ` K) collision) (f c) = collision"
      by (simp add: K)
  qed
  have pg: "paired g (paint g2 (f ` K) collision) (paint g1 K collision)"
    unfolding paired_def
  proof (intro allI impI)
    fix c assume "in_bounds (paint g2 (f ` K) collision) c \<and>
                  cells (paint g2 (f ` K) collision) c = collision"
    then have "c \<in> f ` K" using no_markersD [OF nm2, of c] by (auto split: if_splits)
    then have "g c \<in> K" using inv_image' [OF inv] by blast
    then show "in_bounds (paint g1 K collision) (g c) \<and> cells (paint g1 K collision) (g c) = collision"
      by (simp add: K)
  qed
  have ex: "exclusive f (paint g1 K collision) (paint g2 (f ` K) collision)"
    unfolding exclusive_def
  proof (intro allI impI)
    fix c
    assume h: "in_bounds (paint g1 K collision) c \<and> in_bounds (paint g2 (f ` K) collision) (f c) \<and>
       cells (paint g1 K collision) c = crown"
    then have nk: "c \<notin> K" "cells g1 c = crown" "in_bounds g1 c" "in_bounds g2 (f c)"
      by (auto split: if_splits)
    then have "cells g2 (f c) \<noteq> crown" by (auto simp: K)
    moreover have "f c \<notin> f ` K" using nk(1) inv_image [OF inv] by blast
    ultimately show "cells (paint g2 (f ` K) collision) (f c) \<noteq> crown" by simp
  qed
  show ?thesis unfolding linked_def using cw1 cw2 pf pg ex by blast
qed

lemma linked_refl:
  assumes nm1: "no_markers g1" and nm2: "no_markers g2"
    and none: "\<forall>c. \<not> (in_bounds g1 c \<and> cells g1 c = crown \<and> in_bounds g2 (f c) \<and> cells g2 (f c) = crown)"
  shows "linked f g g1 g2 g1 g2"
  unfolding linked_def crown_within_def paired_def exclusive_def
  using no_markersD [OF nm1] no_markersD [OF nm2] none by blast

lemma assign_collision_cells_linked:
  fixes edt :: "bool ndarray \<Rightarrow> cell \<Rightarrow> 'd :: linorder"
  assumes ok: "idx_ok idx"
    and l: "linked (\<lambda>c. vadd c t) (\<lambda>c. vsub c t) a0 b0 g1 g2"
  shows "\<exists>h1 h2. assign_collision_cells idx edt rnd g1 g2 e1 e2 t = Inr (h1, h2) \<and>
           linked (\<lambda>c. vadd c t) (\<lambda>c. vsub c t) a0 b0 h1 h2 \<and> no_markers h1 \<and> no_markers h2"
proof (cases "length e1 = 0 \<or> length e2 = 0")
  case True
  then show ?thesis
    using assign_rest_linked [OF ok l, of edt] by (simp add: assign_collision_cells_def)
next
  case False
  from growth_rounds_linked [OF ok l, of rnd e1 e2 "[0 ..< 5]"]
  obtain k1 k2 where k: "growth_rounds idx rnd e1 e2 t [0 ..< 5] (g1, g2) = Inr (k1, k2)"
    "linked (\<lambda>c. vadd c t) (\<lambda>c. vsub c t) a0 b0 k1 k2"
    by blast
  show ?thesis
    using False assign_rest_linked [OF ok k(2), of edt]
    by (simp add: assign_collision_cells_def k(1))
qed

lemma colliding_set:
  "set (filter (\<lambda>c. in_bounds g2 c \<and> cells g2 c = crown) (map (\<lambda>c. vadd c t) (argwhere g1 crown)))
     = (\<lambda>c. vadd c t) ` overlap g1 g2 t"
  by (auto simp: overlap_def)

lemma colliding_set_back:
  "set (map (\<lambda>c. vsub c t)
      (filter (\<lambda>c. in_bounds g2 c \<and> cells g2 c = crown) (map (\<lambda>c. vadd c t) (argwhere g1 crown))))
     = overlap g1 g2 t"
  unfolding set_map colliding_set by (simp add: image_image)

lemma resolve_collision_linked:
  fixes edt :: "bool ndarray \<Rightarrow> cell \<Rightarrow> 'd :: linorder"
  assumes ok: "idx_ok idx"
    and nm1: "no_markers (voxels tree1)" and nm2: "no_markers (voxels tree2)"
  shows "\<exists>h1 h2. resolve_collision idx edt rnd tree1 tree2 = Inr (h1, h2) \<and>
           linked (\<lambda>c. vadd c (vsub (anchor tree1) (anchor tree2)))
                  (\<lambda>c. vsub c (vsub (anchor tree1) (anchor tree2)))
                  (voxels tree1) (voxels tree2) h1 h2 \<and> no_markers h1 \<and> no_markers h2"
proof -
  define t where "t = vsub (anchor tree1) (anchor tree2)"
  define g1 where "g1 = voxels tree1"
  define g2 where "g2 = voxels tree2"
  define T where "T = filter (\<lambda>c. in_bounds g2 c \<and> cells g2 c = crown)
                        (map (\<lambda>c. vadd c t) (argwhere g1 crown))"
  have inv: "inverse_maps (\<lambda>c. vadd c t) (\<lambda>c. vsub c t)" by (rule inverse_maps_translation)
  have setT: "set T = (\<lambda>c. vadd c t) ` overlap g1 g2 t"
    unfolding T_def by (rule colliding_set)
  have setT': "set (map (\<lambda>c. vsub c t) T) = overlap g1 g2 t"
    unfolding T_def by (rule colliding_set_back)
  have p1: "put_cells idx g1 (map (\<lambda>c. vsub c t) T) collision = Inr (paint g1 (overlap g1 g2 t) collision)"
    using put_cells_in_bounds [OF ok, of "map (\<lambda>c. vsub c t) T" g1 collision]
    unfolding setT' by (auto simp: overlap_def)
  have p2: "put_cells idx g2 T collision
              = Inr (paint g2 ((\<lambda>c. vadd c t) ` overlap g1 g2 t) collision)"
    using put_cells_in_bounds [OF ok, of T g2 collision]
    unfolding setT by (auto simp: overlap_def)
  show ?thesis
  proof (cases "T = []")
    case True
    then have "overlap g1 g2 t = {}" using setT by simp
    then have none: "\<forall>c. \<not> (in_bounds g1 c \<and> cells g1 c = crown \<and> in_bounds g2 (vadd c t) \<and>
        cells g2 (vadd c t) = crown)"
      by (auto simp: overlap_def)
    have "linked (\<lambda>c. vadd c t) (\<lambda>c. vsub c t) g1 g2 g1 g2"
      using linked_refl [OF _ _ none] nm1 nm2 unfolding g1_def g2_def by blast
    moreover have "resolve_collision idx edt rnd tree1 tree2 = Inr (g1, g2)"
      using True
      unfolding resolve_collision_def Let_def t_def [symmetric] g1_def [symmetric] g2_def [symmetric]
      by (simp add: get_colliding_cells_eq [OF ok] T_def [symmetric])
    ultimately show ?thesis
      using nm1 nm2 unfolding t_def g1_def g2_def by blast
  next
    case False
    have lm: "linked (\<lambda>c. vadd c t) (\<lambda>c. vsub c t) g1 g2
               (paint g1 (overlap g1 g2 t) collision)
               (paint g2 ((\<lambda>c. vadd c t) ` overlap g1 g2 t) collision)"
      using linked_mark [OF _ _ inv, of g1 g2 "overlap g1 g2 t"] nm1 nm2
      unfolding g1_def g2_def overlap_def by blast
    have "resolve_collision idx edt rnd tree1 tree2 =
            assign_collision_cells idx edt rnd
              (paint g1 (overlap g1 g2 t) collision)
              (paint g2 ((\<lambda>c. vadd c t) ` overlap g1 g2 t) collision)
              (filter (\<lambda>c. in_bounds g1 c \<and> cells g1 c = crown)
                 (concat (map (\<lambda>c. map (vadd c) neighbor_offsets) (map (\<lambda>c. vsub c t) T))))
              (filter (\<lambda>c. in_bounds g2 c \<and> cells g2 c = crown)
                 (concat (map (\<lambda>c. map (vadd c) neighbor_offsets) T)))
              t"
      using False
      unfolding resolve_collision_def Let_def t_def [symmetric] g1_def [symmetric] g2_def [symmetric]
      by (simp add: get_colliding_cells_eq [OF ok] get_collision_edge_cells_eq [OF ok]
          T_def [symmetric] p1 p2)
    then show ?thesis
      using assign_collision_cells_linked [OF ok lm, of edt rnd]
      unfolding t_def g1_def g2_def by simp
  qed
qed







lemma indices_shape: "shape a = shape b \<Longrightarrow> indices a = indices b"
  by (simp add: indices_def)

lemma length_filter_mono:
  "(\<And>x. x \<in> set xs \<Longrightarrow> P x \<Longrightarrow> Q x) \<Longrightarrow> length (filter P xs) \<le> length (filter Q xs)"
  by (induction xs) auto

lemma count_crown_within:
  assumes "crown_within h g"
  shows "count_crown h \<le> count_crown g"
proof -
  have i: "indices h = indices g"
    by (rule indices_shape [OF crown_within_shape [OF assms]])
  have "cells g c = crown" if "c \<in> set (indices g)" "cells h c = crown" for c
  proof -
    have "in_bounds h c"
      using that(1) in_bounds_shape [OF crown_within_shape [OF assms]] by simp
    then show ?thesis using crown_withinD [OF assms] that(2) by blast
  qed
  then show ?thesis
    unfolding count_crown_def argwhere_def i by (intro length_filter_mono)
qed

lemma evaluate_pairs_no_markers:
  fixes edt :: "bool ndarray \<Rightarrow> cell \<Rightarrow> 'd :: linorder"
  assumes ok: "idx_ok idx"
  shows "\<forall>tr \<in> set forest. no_markers (voxels tr) \<Longrightarrow>
         \<forall>p \<in> set pairs. fst p < snd p \<and> snd p < length forest \<Longrightarrow>
         \<exists>forest'. evaluate_pairs idx edt rnd n forest pairs = Inr forest' \<and>
           length forest' = length forest \<and> (\<forall>tr \<in> set forest'. no_markers (voxels tr))"
proof (induction pairs arbitrary: forest n)
  case Nil
  then show ?case by simp
next
  case (Cons p ps)
  have i: "fst p < length forest" and j: "snd p < length forest"
    using Cons.prems(2) by auto
  have "no_markers (voxels (forest ! fst p))" "no_markers (voxels (forest ! snd p))"
    using Cons.prems(1) i j by simp_all
  from resolve_collision_linked [OF ok this, of edt "rnd n"]
  obtain h1 h2 where h: "resolve_collision idx edt (rnd n) (forest ! fst p) (forest ! snd p) = Inr (h1, h2)"
    "no_markers h1" "no_markers h2"
    by blast
  define forest1 where "forest1 = (forest[fst p := (forest ! fst p)\<lparr>voxels := h1\<rparr>])
                  [snd p := (forest ! snd p)\<lparr>voxels := h2\<rparr>]"
  have len: "length forest1 = length forest" by (simp add: forest1_def)
  have nm: "\<forall>tr \<in> set forest1. no_markers (voxels tr)"
  proof
    fix tr assume "tr \<in> set forest1"
    then have "tr \<in> insert ((forest ! snd p)\<lparr>voxels := h2\<rparr>)
                 (insert ((forest ! fst p)\<lparr>voxels := h1\<rparr>) (set forest))"
      unfolding forest1_def
      using set_update_subset_insert [of "forest[fst p := (forest ! fst p)\<lparr>voxels := h1\<rparr>]" "snd p"
          "(forest ! snd p)\<lparr>voxels := h2\<rparr>"]
        set_update_subset_insert [of forest "fst p" "(forest ! fst p)\<lparr>voxels := h1\<rparr>"]
      by blast
    then show "no_markers (voxels tr)"
      using h(2,3) Cons.prems(1) by auto
  qed
  have "\<forall>q \<in> set ps. fst q < snd q \<and> snd q < length forest1"
    using Cons.prems(2) len by simp
  from Cons.IH [OF nm this, of "Suc n"] show ?case
    using i j h(1) len by (simp add: forest1_def)
qed

lemma no_markers_example_grid: "no_markers example_grid"
  by (simp add: no_markers_def example_grid_def)

subsection \<open>The claims on collision resolution\<close>

text \<open>
  C1: for two trees whose grids hold no collision marker (as every grid built by
  \<^verbatim>\<open>add_tree\<close> and every grid left by an earlier resolution does),
  \<^verbatim>\<open>resolve_collision\<close> returns, and afterwards no voxel is crown in both grids:
  where a cell \<open>c\<close> of tree 1 holds crown and \<open>c + translation\<close> lies inside the grid
  of tree 2, that cell of tree 2 does not hold crown. In the fallback
  \<^verbatim>\<open>assign_rest_of_collision_cells\<close>, a contested cell becomes crown in the grid with
  the strictly smaller distance and empty in the other; on equal distances it goes to
  tree 1.
\<close>

theorem resolve_collision_exclusive:
  fixes edt :: "bool ndarray \<Rightarrow> cell \<Rightarrow> 'd :: linorder"
  shows "(no_markers (voxels tree1) \<and> no_markers (voxels tree2) \<longrightarrow>
          (\<exists>h1 h2. resolve_collision np_index edt rnd tree1 tree2 = Inr (h1, h2) \<and>
             (\<forall>c. in_bounds h1 c \<and> cells h1 c = crown \<and>
                  in_bounds h2 (vadd c (vsub (anchor tree1) (anchor tree2)))
                \<longrightarrow> cells h2 (vadd c (vsub (anchor tree1) (anchor tree2))) \<noteq> crown)))
       \<and> ((\<forall>c. in_bounds g1 c \<and> cells g1 c = collision \<longrightarrow> in_bounds g2 (vadd c t)) \<longrightarrow>
          (\<exists>k1 k2. assign_rest_of_collision_cells np_index edt g1 g2 t = Inr (k1, k2) \<and>
             (\<forall>c. in_bounds g1 c \<and> cells g1 c = collision \<longrightarrow>
                (if edt (non_owned_mask g1) c \<le> edt (non_owned_mask g2) (vadd c t)
                 then cells k1 c = crown \<and> cells k2 (vadd c t) = no_tree
                 else cells k1 c = no_tree \<and> cells k2 (vadd c t) = crown))))"
proof (intro conjI impI)
  assume "no_markers (voxels tree1) \<and> no_markers (voxels tree2)"
  then have nm: "no_markers (voxels tree1)" "no_markers (voxels tree2)" by simp_all
  from resolve_collision_linked [OF idx_ok_np_index nm, of edt rnd]
  obtain h1 h2 where h: "resolve_collision np_index edt rnd tree1 tree2 = Inr (h1, h2)"
    "linked (\<lambda>c. vadd c (vsub (anchor tree1) (anchor tree2)))
            (\<lambda>c. vsub c (vsub (anchor tree1) (anchor tree2)))
            (voxels tree1) (voxels tree2) h1 h2"
    by blast
  from h(2) have "exclusive (\<lambda>c. vadd c (vsub (anchor tree1) (anchor tree2))) h1 h2"
    unfolding linked_def by simp
  then show "\<exists>h1 h2. resolve_collision np_index edt rnd tree1 tree2 = Inr (h1, h2) \<and>
             (\<forall>c. in_bounds h1 c \<and> cells h1 c = crown \<and>
                  in_bounds h2 (vadd c (vsub (anchor tree1) (anchor tree2)))
                \<longrightarrow> cells h2 (vadd c (vsub (anchor tree1) (anchor tree2))) \<noteq> crown)"
    using h(1) unfolding exclusive_def by blast
next
  assume into: "\<forall>c. in_bounds g1 c \<and> cells g1 c = collision \<longrightarrow> in_bounds g2 (vadd c t)"
  have inv: "inverse_maps (\<lambda>c. vadd c t) (\<lambda>c. vsub c t)" by (rule inverse_maps_translation)
  show "\<exists>k1 k2. assign_rest_of_collision_cells np_index edt g1 g2 t = Inr (k1, k2) \<and>
             (\<forall>c. in_bounds g1 c \<and> cells g1 c = collision \<longrightarrow>
                (if edt (non_owned_mask g1) c \<le> edt (non_owned_mask g2) (vadd c t)
                 then cells k1 c = crown \<and> cells k2 (vadd c t) = no_tree
                 else cells k1 c = no_tree \<and> cells k2 (vadd c t) = crown))"
    by (rule assign_rest_cells [OF idx_ok_np_index into])
qed

theorem resolve_collision_exclusive_witness:
  "no_markers (voxels example_tree1) \<and> no_markers (voxels example_tree2) \<and>
   (\<exists>h1 h2. resolve_collision np_index example_edt example_rnd example_tree1 example_tree2 = Inr (h1, h2) \<and>
      (\<forall>c. in_bounds h1 c \<and> cells h1 c = crown \<and> in_bounds h2 (vadd c (1, 0, 0))
         \<longrightarrow> cells h2 (vadd c (1, 0, 0)) \<noteq> crown)) \<and>
   in_bounds example_marked_grid (1, 0, 0) \<and> cells example_marked_grid (1, 0, 0) = collision \<and>
   (\<exists>k1 k2. assign_rest_of_collision_cells np_index example_edt example_marked_grid
               example_marked_grid (0, 0, 0) = Inr (k1, k2) \<and>
      cells k1 (1, 0, 0) = crown \<and> cells k2 (1, 0, 0) = no_tree)"
proof -
  have nm: "no_markers (voxels example_tree1) \<and> no_markers (voxels example_tree2)"
    by (simp add: example_tree1_def example_tree2_def no_markers_example_grid)
  have into: "\<forall>c. in_bounds example_marked_grid c \<and> cells example_marked_grid c = collision \<longrightarrow>
                in_bounds example_marked_grid (vadd c (0, 0, 0))"
    by (simp add: in_bounds_def example_marked_grid_def)
  have here: "in_bounds example_marked_grid (1, 0, 0) \<and> cells example_marked_grid (1, 0, 0) = collision"
    by (simp add: in_bounds_def example_marked_grid_def)
  note inst = resolve_collision_exclusive [of example_tree1 example_tree2 example_edt example_rnd
      example_marked_grid example_marked_grid "(0, 0, 0)"]
  from inst nm have a: "\<exists>h1 h2. resolve_collision np_index example_edt example_rnd example_tree1 example_tree2 = Inr (h1, h2) \<and>
      (\<forall>c. in_bounds h1 c \<and> cells h1 c = crown \<and> in_bounds h2 (vadd c (1, 0, 0))
         \<longrightarrow> cells h2 (vadd c (1, 0, 0)) \<noteq> crown)"
    by (simp add: example_tree1_def example_tree2_def)
  from inst into obtain k1 k2 where
    k: "assign_rest_of_collision_cells np_index example_edt example_marked_grid
               example_marked_grid (0, 0, 0) = Inr (k1, k2)"
    "\<forall>c. in_bounds example_marked_grid c \<and> cells example_marked_grid c = collision \<longrightarrow>
                (if example_edt (non_owned_mask example_marked_grid) c
                     \<le> example_edt (non_owned_mask example_marked_grid) (vadd c (0, 0, 0))
                 then cells k1 c = crown \<and> cells k2 (vadd c (0, 0, 0)) = no_tree
                 else cells k1 c = no_tree \<and> cells k2 (vadd c (0, 0, 0)) = crown)"
    by blast
  from k(2) here have "cells k1 (1, 0, 0) = crown \<and> cells k2 (1, 0, 0) = no_tree"
    by (auto simp: example_edt_def)
  then show ?thesis using nm a here k(1) by blast
qed

text \<open>
  C3: when neither grid holds a collision marker before the call, none does after
  \<^verbatim>\<open>resolve_collision\<close> returns; hence a pass of \<^verbatim>\<open>evaluate_forest\<close> over any list
  of candidate pairs, started on grids without markers, returns and leaves no marker in
  any grid of the forest.
\<close>

theorem collision_markers_eliminated:
  fixes edt :: "bool ndarray \<Rightarrow> cell \<Rightarrow> 'd :: linorder"
  shows "(no_markers (voxels tree1) \<and> no_markers (voxels tree2) \<longrightarrow>
          (\<exists>h1 h2. resolve_collision np_index edt rnd tree1 tree2 = Inr (h1, h2) \<and>
             no_markers h1 \<and> no_markers h2))
       \<and> ((\<forall>tr \<in> set forest. no_markers (voxels tr)) \<and>
          (\<forall>p \<in> set pairs. fst p < snd p \<and> snd p < length forest) \<longrightarrow>
          (\<exists>forest'. evaluate_pairs np_index edt rnds 0 forest pairs = Inr forest' \<and>
             length forest' = length forest \<and> (\<forall>tr \<in> set forest'. no_markers (voxels tr))))"
proof (intro conjI impI)
  assume "no_markers (voxels tree1) \<and> no_markers (voxels tree2)"
  then have nm: "no_markers (voxels tree1)" "no_markers (voxels tree2)" by simp_all
  from resolve_collision_linked [OF idx_ok_np_index nm, of edt rnd]
  show "\<exists>h1 h2. resolve_collision np_index edt rnd tree1 tree2 = Inr (h1, h2) \<and>
             no_markers h1 \<and> no_markers h2"
    by blast
next
  assume a: "(\<forall>tr \<in> set forest. no_markers (voxels tr)) \<and>
          (\<forall>p \<in> set pairs. fst p < snd p \<and> snd p < length forest)"
  show "\<exists>forest'. evaluate_pairs np_index edt rnds 0 forest pairs = Inr forest' \<and>
             length forest' = length forest \<and> (\<forall>tr \<in> set forest'. no_markers (voxels tr))"
    using evaluate_pairs_no_markers [OF idx_ok_np_index, of forest pairs edt rnds 0] a by blast
qed

theorem collision_markers_eliminated_witness:
  "no_markers (voxels example_tree1) \<and> no_markers (voxels example_tree2) \<and>
   (\<exists>h1 h2. resolve_collision np_index example_edt example_rnd example_tree1 example_tree2 = Inr (h1, h2) \<and>
      no_markers h1 \<and> no_markers h2) \<and>
   (\<exists>forest'. evaluate_pairs np_index example_edt (\<lambda>n. example_rnd) 0
        [example_tree1, example_tree2, example_far_tree] [(0, 2), (0, 1)] = Inr forest' \<and>
      length forest' = 3 \<and> list_all (\<lambda>tr. no_markers (voxels tr)) forest')"
proof -
  have nm: "no_markers (voxels example_tree1) \<and> no_markers (voxels example_tree2)"
    by (simp add: example_tree1_def example_tree2_def no_markers_example_grid)
  have pre: "(\<forall>tr \<in> set [example_tree1, example_tree2, example_far_tree]. no_markers (voxels tr)) \<and>
          (\<forall>p \<in> set [(0, 2), (0, 1)]. fst p < snd p \<and>
              snd p < length [example_tree1, example_tree2, example_far_tree])"
    by (simp add: example_tree1_def example_tree2_def example_far_tree_def no_markers_example_grid)
  note inst = collision_markers_eliminated [of example_tree1 example_tree2 example_edt example_rnd
      "[example_tree1, example_tree2, example_far_tree]" "[(0, 2), (0, 1)]" "\<lambda>n. example_rnd"]
  from inst nm have a: "\<exists>h1 h2. resolve_collision np_index example_edt example_rnd example_tree1 example_tree2 = Inr (h1, h2) \<and>
      no_markers h1 \<and> no_markers h2"
    by blast
  from inst pre obtain forest' where t: "evaluate_pairs np_index example_edt (\<lambda>n. example_rnd) 0
        [example_tree1, example_tree2, example_far_tree] [(0, 2), (0, 1)] = Inr forest'"
      "length forest' = length [example_tree1, example_tree2, example_far_tree]"
      "\<forall>tr \<in> set forest'. no_markers (voxels tr)"
    by blast
  from t(2) have "length forest' = 3" by simp
  with t(1,3) have b: "\<exists>forest'. evaluate_pairs np_index example_edt (\<lambda>n. example_rnd) 0
        [example_tree1, example_tree2, example_far_tree] [(0, 2), (0, 1)] = Inr forest' \<and>
      length forest' = 3 \<and> list_all (\<lambda>tr. no_markers (voxels tr)) forest'"
    unfolding list_all_iff by blast
  show ?thesis using nm a b by blast
qed

text \<open>
  C4: the number of crown cells of the two grids together does not grow in
  \<^verbatim>\<open>resolve_collision\<close>. Every cell that is crown afterwards was crown before, in
  the same grid, and no voxel is crown in both grids afterwards.
\<close>

theorem crown_never_created:
  fixes edt :: "bool ndarray \<Rightarrow> cell \<Rightarrow> 'd :: linorder"
  assumes "no_markers (voxels tree1)" and "no_markers (voxels tree2)"
  shows "\<exists>h1 h2. resolve_collision np_index edt rnd tree1 tree2 = Inr (h1, h2) \<and>
           count_crown h1 + count_crown h2 \<le> count_crown (voxels tree1) + count_crown (voxels tree2) \<and>
           (\<forall>c. in_bounds h1 c \<and> cells h1 c = crown \<longrightarrow> cells (voxels tree1) c = crown) \<and>
           (\<forall>c. in_bounds h2 c \<and> cells h2 c = crown \<longrightarrow> cells (voxels tree2) c = crown) \<and>
           (\<forall>c. in_bounds h1 c \<and> in_bounds h2 (vadd c (vsub (anchor tree1) (anchor tree2))) \<longrightarrow>
              \<not> (cells h1 c = crown \<and> cells h2 (vadd c (vsub (anchor tree1) (anchor tree2))) = crown))"
proof -
  from resolve_collision_linked [OF idx_ok_np_index assms, of edt rnd]
  obtain h1 h2 where h: "resolve_collision np_index edt rnd tree1 tree2 = Inr (h1, h2)"
    "linked (\<lambda>c. vadd c (vsub (anchor tree1) (anchor tree2)))
            (\<lambda>c. vsub c (vsub (anchor tree1) (anchor tree2)))
            (voxels tree1) (voxels tree2) h1 h2"
    by blast
  from h(2) have w1: "crown_within h1 (voxels tree1)" and w2: "crown_within h2 (voxels tree2)"
    and ex: "exclusive (\<lambda>c. vadd c (vsub (anchor tree1) (anchor tree2))) h1 h2"
    unfolding linked_def by simp_all
  have "count_crown h1 + count_crown h2 \<le> count_crown (voxels tree1) + count_crown (voxels tree2)"
    using count_crown_within [OF w1] count_crown_within [OF w2] by simp
  moreover have "\<forall>c. in_bounds h1 c \<and> cells h1 c = crown \<longrightarrow> cells (voxels tree1) c = crown"
    using crown_withinD [OF w1] by blast
  moreover have "\<forall>c. in_bounds h2 c \<and> cells h2 c = crown \<longrightarrow> cells (voxels tree2) c = crown"
    using crown_withinD [OF w2] by blast
  moreover have "\<forall>c. in_bounds h1 c \<and> in_bounds h2 (vadd c (vsub (anchor tree1) (anchor tree2))) \<longrightarrow>
              \<not> (cells h1 c = crown \<and> cells h2 (vadd c (vsub (anchor tree1) (anchor tree2))) = crown)"
    using exclusiveD [OF ex] by blast
  ultimately show ?thesis using h(1) by blast
qed

theorem crown_never_created_witness:
  "no_markers (voxels example_tree1) \<and> no_markers (voxels example_tree2) \<and>
   count_crown (voxels example_tree1) + count_crown (voxels example_tree2) = 6 \<and>
   (\<exists>h1 h2. resolve_collision np_index example_edt example_rnd example_tree1 example_tree2 = Inr (h1, h2) \<and>
      count_crown h1 + count_crown h2 \<le> 6)"
proof -
  have nm: "no_markers (voxels example_tree1)" "no_markers (voxels example_tree2)"
    by (simp_all add: example_tree1_def example_tree2_def no_markers_example_grid)
  have six: "count_crown (voxels example_tree1) + count_crown (voxels example_tree2) = 6"
    by (simp add: example_tree1_def example_tree2_def example_grid_def count_crown_def
        argwhere_def indices_def upto.simps)
  from crown_never_created [OF nm, of example_edt example_rnd] six
  have "\<exists>h1 h2. resolve_collision np_index example_edt example_rnd example_tree1 example_tree2 = Inr (h1, h2) \<and>
      count_crown h1 + count_crown h2 \<le> 6"
    by auto
  then show ?thesis using nm six by blast
qed

text \<open>
  C5: when no crown cell of tree 1, translated, lands inside the grid of tree 2 on a crown
  cell, \<^verbatim>\<open>resolve_collision\<close> returns both grids as they were.
\<close>

theorem no_overlap_no_mutation:
  fixes edt :: "bool ndarray \<Rightarrow> cell \<Rightarrow> 'd :: linorder"
  assumes "\<forall>c. \<not> (in_bounds (voxels tree1) c \<and> cells (voxels tree1) c = crown \<and>
             in_bounds (voxels tree2) (vadd c (vsub (anchor tree1) (anchor tree2))) \<and>
             cells (voxels tree2) (vadd c (vsub (anchor tree1) (anchor tree2))) = crown)"
  shows "resolve_collision np_index edt rnd tree1 tree2 = Inr (voxels tree1, voxels tree2)"
proof -
  have "filter (\<lambda>c. in_bounds (voxels tree2) c \<and> cells (voxels tree2) c = crown)
          (map (\<lambda>c. vadd c (vsub (anchor tree1) (anchor tree2))) (argwhere (voxels tree1) crown)) = []"
    using assms by (auto simp: filter_empty_conv)
  then show ?thesis
    unfolding resolve_collision_def Let_def
    by (simp add: get_colliding_cells_eq [OF idx_ok_np_index])
qed

theorem no_overlap_no_mutation_witness:
  "resolve_collision np_index example_edt example_rnd example_far_tree example_tree2
     = Inr (voxels example_far_tree, voxels example_tree2)"
proof (rule no_overlap_no_mutation)
  show "\<forall>c. \<not> (in_bounds (voxels example_far_tree) c \<and> cells (voxels example_far_tree) c = crown \<and>
             in_bounds (voxels example_tree2) (vadd c (vsub (anchor example_far_tree) (anchor example_tree2))) \<and>
             cells (voxels example_tree2) (vadd c (vsub (anchor example_far_tree) (anchor example_tree2))) = crown)"
    by (auto simp: example_far_tree_def example_tree2_def example_grid_def in_bounds_def)
qed



text \<open>
  C8 (as amended): a cell returned by \<^verbatim>\<open>get_collision_edge_cells\<close> lies inside the
  grid, holds crown when the detection runs (line 315, before the marking of line 319)
  and is a 6-neighbour of a collision cell, as the docstring says. It need not be a
  collision cell itself: after the marking it holds the marker if it is one, and crown
  otherwise.
\<close>

theorem edge_cells_are_crown_neighbours:
  assumes "\<forall>c \<in> set collision_cells. in_bounds tree_grid c"
  shows "\<exists>edge_cells marked.
           get_collision_edge_cells np_index tree_grid collision_cells = Inr edge_cells \<and>
           put_cells np_index tree_grid collision_cells collision = Inr marked \<and>
           (\<forall>e \<in> set edge_cells.
              in_bounds tree_grid e \<and> cells tree_grid e = crown \<and>
              (\<exists>c \<in> set collision_cells. \<exists>d \<in> set neighbor_offsets. e = vadd c d) \<and>
              cells marked e = (if e \<in> set collision_cells then collision else crown))"
proof -
  define edge_cells where "edge_cells = filter (\<lambda>c. in_bounds tree_grid c \<and> cells tree_grid c = crown)
     (concat (map (\<lambda>c. map (vadd c) neighbor_offsets) collision_cells))"
  have e: "get_collision_edge_cells np_index tree_grid collision_cells = Inr edge_cells"
    unfolding edge_cells_def by (rule get_collision_edge_cells_eq [OF idx_ok_np_index])
  have m: "put_cells np_index tree_grid collision_cells collision
             = Inr (paint tree_grid (set collision_cells) collision)"
    by (rule put_cells_in_bounds [OF idx_ok_np_index assms])
  have "in_bounds tree_grid e \<and> cells tree_grid e = crown \<and>
        (\<exists>c \<in> set collision_cells. \<exists>d \<in> set neighbor_offsets. e = vadd c d) \<and>
        cells (paint tree_grid (set collision_cells) collision) e
          = (if e \<in> set collision_cells then collision else crown)"
    if "e \<in> set edge_cells" for e
  proof -
    from that have a: "in_bounds tree_grid e" "cells tree_grid e = crown"
      and "e \<in> set (concat (map (\<lambda>c. map (vadd c) neighbor_offsets) collision_cells))"
      by (simp_all add: edge_cells_def)
    then obtain c where "c \<in> set collision_cells" "e \<in> set (map (vadd c) neighbor_offsets)"
      by (auto simp del: vadd.simps)
    then have "\<exists>c \<in> set collision_cells. \<exists>d \<in> set neighbor_offsets. e = vadd c d"
      by (auto simp del: vadd.simps)
    then show ?thesis using a by simp
  qed
  then show ?thesis using e m by blast
qed

text \<open>
  The claim as written fails. Two trees of three crown cells in a row, one step apart:
  the collision cells of tree 1 are \<open>(0,0,0)\<close> and \<open>(1,0,0)\<close>, both trees have edge
  cells (so the growth rounds run), and the edge cell \<open>(2,0,0)\<close> of tree 1 holds crown,
  not the marker, after the marking.
\<close>

theorem edge_cell_holding_crown:
  "get_collision_edge_cells np_index example_grid [(0, 0, 0), (1, 0, 0)]
     = Inr [(1, 0, 0), (2, 0, 0), (0, 0, 0)] \<and>
   get_collision_edge_cells np_index example_grid [(1, 0, 0), (2, 0, 0)]
     = Inr [(2, 0, 0), (0, 0, 0), (1, 0, 0)] \<and>
   map_sum id (\<lambda>marked. cells marked (2, 0, 0))
     (put_cells np_index example_grid [(0, 0, 0), (1, 0, 0)] collision) = Inr crown"
  by (simp add: get_collision_edge_cells_eq [OF idx_ok_np_index] neighbor_offsets_def
      example_grid_def in_bounds_def locate_def np_index_def)

theorem edge_cells_are_crown_neighbours_witness:
  "list_all (in_bounds example_grid) [(0, 0, 0), (1, 0, 0)] \<and>
   (\<exists>marked. put_cells np_index example_grid [(0, 0, 0), (1, 0, 0)] collision = Inr marked \<and>
      cells marked (2, 0, 0) = crown \<and> cells marked (1, 0, 0) = collision)"
proof -
  have ib: "\<forall>c \<in> set [(0, 0, 0), (1, 0, 0)]. in_bounds example_grid c"
    by (simp add: in_bounds_def example_grid_def)
  have ec: "get_collision_edge_cells np_index example_grid [(0, 0, 0), (1, 0, 0)]
     = Inr [(1, 0, 0), (2, 0, 0), (0, 0, 0)]"
    by (simp add: get_collision_edge_cells_eq [OF idx_ok_np_index] neighbor_offsets_def
      example_grid_def in_bounds_def)
  from edge_cells_are_crown_neighbours [OF ib] ec
  obtain marked where m: "put_cells np_index example_grid [(0, 0, 0), (1, 0, 0)] collision = Inr marked"
    "\<forall>e \<in> set [(1, 0, 0), (2, 0, 0), (0 :: int, 0 :: int, 0 :: int)].
        cells marked e = (if e \<in> set [(0, 0, 0), (1, 0, 0)] then collision else crown)"
    by auto
  from m(2) have "cells marked (2, 0, 0) = crown \<and> cells marked (1, 0, 0) = collision"
    by simp
  then show ?thesis using ib m(1) by (simp add: list_all_iff)
qed

section \<open>The grid builder: properties\<close>












subsection \<open>The grids of a forest hold no collision marker\<close>

text \<open>
  \<^verbatim>\<open>add_tree\<close> starts from \<^verbatim>\<open>np.zeros\<close> and stores only the values of \<open>stem\<close> and
  \<open>crown\<close>: when no grid of the forest holds a collision marker before the call, none
  does after it, the new grid included. This is the state in which
  \<^verbatim>\<open>evaluate_forest\<close> calls \<^verbatim>\<open>resolve_collision\<close> for the first time.
\<close>

lemma put_cells_no_collision:
  "put_cells idx a cs v = Inr a' \<Longrightarrow> v \<noteq> collision \<Longrightarrow> \<forall>c. cells a c \<noteq> collision
     \<Longrightarrow> \<forall>c. cells a' c \<noteq> collision"
proof (induction cs arbitrary: a)
  case Nil
  then show ?case by simp
next
  case (Cons c cs)
  from Cons.prems(1) obtain c' where
    step: "put_cells idx (a\<lparr>cells := (cells a)(c' := v)\<rparr>) cs v = Inr a'"
    by (auto split: sum.splits)
  have "\<forall>d. cells (a\<lparr>cells := (cells a)(c' := v)\<rparr>) d \<noteq> collision"
    using Cons.prems(2,3) by simp
  from Cons.IH [OF step Cons.prems(2) this] show ?case .
qed

lemma put_layers_no_collision:
  "put_layers idx a layer is v = Inr a' \<Longrightarrow> v \<noteq> collision \<Longrightarrow> \<forall>c. cells a c \<noteq> collision
     \<Longrightarrow> \<forall>c. cells a' c \<noteq> collision"
proof (induction "is" arbitrary: a)
  case Nil
  then show ?case by simp
next
  case (Cons i rest)
  from Cons.prems(1) obtain b where
    b: "put_cells idx a (layer i) v = Inr b" and r: "put_layers idx b layer rest v = Inr a'"
    by (cases "put_cells idx a (layer i) v") simp_all
  from put_cells_no_collision [OF b Cons.prems(2,3)] have "\<forall>c. cells b c \<noteq> collision" .
  from Cons.IH [OF r Cons.prems(2) this] show ?case .
qed

lemma add_stem_no_collision:
  "add_stem idx g d h = Inr g' \<Longrightarrow> \<forall>c. cells g c \<noteq> collision \<Longrightarrow> \<forall>c. cells g' c \<noteq> collision"
  unfolding add_stem_def Let_def
  by (auto split: prod.splits dest!: put_layers_no_collision)

lemma crown_function_no_collision:
  assumes "crown_type_to_function key = Inr f" "f idx g cfg = Inr g'"
    and "\<forall>c. cells g c \<noteq> collision"
  shows "\<forall>c. cells g' c \<noteq> collision"
proof -
  from assms(1) have "f = add_ellipsoid_tree \<or> f = add_columnar_tree \<or> f = add_spreading_tree"
    by (auto simp: crown_type_to_function_def split: if_splits)
  then show ?thesis
  proof (elim disjE)
    assume "f = add_ellipsoid_tree"
    then show ?thesis
      using assms(2,3) unfolding add_ellipsoid_tree_def Let_def
      by (auto split: prod.splits dest!: put_cells_no_collision)
  next
    assume "f = add_columnar_tree"
    then show ?thesis
      using assms(2,3) unfolding add_columnar_tree_def Let_def
      by (auto split: prod.splits dest!: put_layers_no_collision)
  next
    assume "f = add_spreading_tree"
    then show ?thesis
      using assms(2,3) unfolding add_spreading_tree_def Let_def
      by (auto split: prod.splits dest!: put_cells_no_collision)
  qed
qed

lemma np_zeros_no_collision: "np_zeros dims = Inr g \<Longrightarrow> \<forall>c. cells g c \<noteq> collision"
  by (auto simp: np_zeros_def split: prod.splits if_splits)

lemma add_tree_no_markers:
  assumes "add_tree idx self position configuration_identifier tree_configuration = Inr self'"
    and "\<forall>t \<in> set (trees self). no_markers (voxels t)"
  shows "\<forall>t \<in> set (trees self'). no_markers (voxels t)"
proof -
  let ?build = "and_then (np_zeros
           (py_int (crown_width tree_configuration / cube_size + 1) + 1,
            py_int (crown_width tree_configuration / cube_size + 1) + 1,
            py_int ((stem_height tree_configuration + crown_height tree_configuration
                       - crown_offset tree_configuration) / cube_size + 1) + 1)) (\<lambda>tree_grid.
        and_then (add_stem idx tree_grid (stem_diameter tree_configuration)
                    (stem_height tree_configuration)) (\<lambda>tree_grid.
        and_then (crown_type_to_function (crown_type tree_configuration)) (\<lambda>add_crown.
        add_crown idx tree_grid tree_configuration)))"
  obtain x y z where pos: "position = (x, y, z)" by (cases position)
  from assms(1) obtain g where g: "?build = Inr g"
    and self': "self' = self\<lparr>evaluated_forest := False,
        trees := trees self @
          [\<lparr>anchor = (py_int (x / cube_size), py_int (y / cube_size), py_int (z / cube_size)),
            config_id = configuration_identifier, voxels = g\<rparr>]\<rparr>"
    unfolding add_tree_def Let_def pos by (cases ?build) auto
  from g obtain g0 where g0: "np_zeros
           (py_int (crown_width tree_configuration / cube_size + 1) + 1,
            py_int (crown_width tree_configuration / cube_size + 1) + 1,
            py_int ((stem_height tree_configuration + crown_height tree_configuration
                       - crown_offset tree_configuration) / cube_size + 1) + 1) = Inr g0"
    and r1: "and_then (add_stem idx g0 (stem_diameter tree_configuration)
                    (stem_height tree_configuration)) (\<lambda>tree_grid.
        and_then (crown_type_to_function (crown_type tree_configuration)) (\<lambda>add_crown.
        add_crown idx tree_grid tree_configuration)) = Inr g"
    by (cases "np_zeros
           (py_int (crown_width tree_configuration / cube_size + 1) + 1,
            py_int (crown_width tree_configuration / cube_size + 1) + 1,
            py_int ((stem_height tree_configuration + crown_height tree_configuration
                       - crown_offset tree_configuration) / cube_size + 1) + 1)") simp_all
  from r1 obtain g1 where g1: "add_stem idx g0 (stem_diameter tree_configuration)
                    (stem_height tree_configuration) = Inr g1"
    and r2: "and_then (crown_type_to_function (crown_type tree_configuration)) (\<lambda>add_crown.
        add_crown idx g1 tree_configuration) = Inr g"
    by (cases "add_stem idx g0 (stem_diameter tree_configuration)
                    (stem_height tree_configuration)") simp_all
  from r2 obtain f where f: "crown_type_to_function (crown_type tree_configuration) = Inr f"
    and r3: "f idx g1 tree_configuration = Inr g"
    by (cases "crown_type_to_function (crown_type tree_configuration)") simp_all
  have "\<forall>c. cells g c \<noteq> collision"
    using crown_function_no_collision [OF f r3]
      add_stem_no_collision [OF g1] np_zeros_no_collision [OF g0] by blast
  then have "no_markers g" unfolding no_markers_def by blast
  then show ?thesis using assms(2) unfolding self' by auto
qed

section \<open>Greedy meshing: properties\<close>

lemma entries_Nil [simp]: "entries [] = {}"
  by (simp add: entries_def)

lemma entries_Cons: "entries ((k, segments) # d) = Pair k ` set segments \<union> entries d"
  by (auto simp: entries_def)

lemma entries_keys: "(k, s) \<in> entries d \<Longrightarrow> k \<in> fst ` set d"
  by (force simp: entries_def)

lemma wf_dict_Cons:
  "wf_dict ((k, segments) # d) \<longleftrightarrow> k \<notin> fst ` set d \<and> segments \<noteq> [] \<and> wf_dict d"
  by (auto simp: wf_dict_def)

lemma entries_dict_add: "entries (dict_add k s d) = insert (k, s) (entries d)"
proof (induction d)
  case Nil
  then show ?case by (simp add: entries_Cons)
next
  case (Cons a d)
  obtain k' ss where a: "a = (k', ss)" by (cases a)
  show ?case using Cons by (auto simp: a entries_Cons)
qed

lemma keys_dict_add: "fst ` set (dict_add k s d) = insert k (fst ` set d)"
proof (induction d)
  case Nil
  then show ?case by simp
next
  case (Cons a d)
  obtain k' ss where a: "a = (k', ss)" by (cases a)
  show ?case using Cons by (auto simp: a)
qed

lemma wf_dict_add: "wf_dict d \<Longrightarrow> wf_dict (dict_add k s d)"
proof (induction d)
  case Nil
  then show ?case by (simp add: wf_dict_def)
next
  case (Cons a d)
  obtain k' ss where a: "a = (k', ss)" by (cases a)
  show ?case
  proof (cases "k' = k")
    case True
    have "List.insert s ss \<noteq> []" by (auto simp: List.insert_def)
    then show ?thesis using True Cons.prems by (simp add: a wf_dict_Cons)
  next
    case False
    then show ?thesis
      using Cons by (simp add: a wf_dict_Cons keys_dict_add)
  qed
qed

lemma keys_remove_segment: "fst ` set (remove_segment k s d) \<subseteq> fst ` set d"
proof (induction d)
  case Nil
  then show ?case by simp
next
  case (Cons a d)
  obtain k' ss where a: "a = (k', ss)" by (cases a)
  show ?case using Cons by (auto simp: a)
qed

lemma wf_remove_segment: "wf_dict d \<Longrightarrow> wf_dict (remove_segment k s d)"
proof (induction d)
  case Nil
  then show ?case by simp
next
  case (Cons a d)
  obtain k' ss where a: "a = (k', ss)" by (cases a)
  show ?case
  proof (cases "k' = k")
    case True
    then show ?thesis using Cons.prems by (auto simp: a wf_dict_Cons)
  next
    case False
    then show ?thesis
      using Cons keys_remove_segment [of k s d] by (auto simp: a wf_dict_Cons)
  qed
qed

lemma entries_remove_segment:
  "wf_dict d \<Longrightarrow> entries (remove_segment k s d) = entries d - {(k, s)}"
proof (induction d)
  case Nil
  then show ?case by simp
next
  case (Cons a d)
  obtain k' ss where a: "a = (k', ss)" by (cases a)
  have wf: "k' \<notin> fst ` set d" "wf_dict d"
    using Cons.prems by (simp_all add: a wf_dict_Cons)
  show ?case
  proof (cases "k' = k")
    case True
    have none: "(k, x) \<notin> entries d" for x using wf(1) True entries_keys by fast
    have "entries d = entries d - {(k, s)}" using none by blast
    moreover have "Pair k ` set (removeAll s ss) = Pair k ` set ss - {(k, s)}" by auto
    moreover have "removeAll s ss = [] \<Longrightarrow> Pair k ` set ss - {(k, s)} = {}"
      using \<open>Pair k ` set (removeAll s ss) = Pair k ` set ss - {(k, s)}\<close> by simp
    ultimately show ?thesis using True
      by (cases "removeAll s ss = []") (auto simp: a entries_Cons)
  next
    case False
    then show ?thesis using Cons.IH [OF wf(2)] by (auto simp: a entries_Cons)
  qed
qed

lemma map_of_entries: "wf_dict d \<Longrightarrow> (\<exists>segments. map_of d k = Some segments \<and> s \<in> set segments) \<longleftrightarrow> (k, s) \<in> entries d"
  by (auto simp: entries_def wf_dict_def)

lemma pop_segment_fst: "wf_dict d \<Longrightarrow> fst (pop_segment k s d) \<longleftrightarrow> (k, s) \<in> entries d"
  using map_of_entries [of d k s]
  by (auto simp: pop_segment_def split: option.splits)

lemma pop_segment_entries: "wf_dict d \<Longrightarrow> entries (snd (pop_segment k s d)) = entries d - {(k, s)}"
  using map_of_entries [of d k s]
  by (auto simp: pop_segment_def entries_remove_segment split: option.splits)

lemma pop_segment_wf: "wf_dict d \<Longrightarrow> wf_dict (snd (pop_segment k s d))"
  by (auto simp: pop_segment_def wf_remove_segment split: option.splits)

lemma scan_entries:
  "wf_dict d \<Longrightarrow>
   \<exists>n. fst (scan key s step offset d) = offset + int n * step \<and>
       wf_dict (snd (scan key s step offset d)) \<and>
       entries (snd (scan key s step offset d))
         = entries d - (\<lambda>i. (key (offset + int i * step), s)) ` {..<n} \<and>
       (\<forall>i<n. (key (offset + int i * step), s) \<in> entries d) \<and>
       ((key offset, s) \<in> entries d \<longrightarrow> 0 < n)"
proof (induction key s step offset d rule: scan.induct)
  case (1 key s step offset d)
  show ?case
  proof (cases "fst (pop_segment (key offset) s d)")
    case False
    then have "scan key s step offset d = (offset, d)" by (subst scan.simps) simp
    moreover have "(key offset, s) \<notin> entries d"
      using False pop_segment_fst [OF "1.prems"] by blast
    ultimately show ?thesis using "1.prems" by (intro exI [of _ 0]) simp
  next
    case True
    define d1 where "d1 = snd (pop_segment (key offset) s d)"
    have here: "(key offset, s) \<in> entries d"
      using True pop_segment_fst [OF "1.prems"] by blast
    have wf1: "wf_dict d1" unfolding d1_def by (rule pop_segment_wf [OF "1.prems"])
    have e1: "entries d1 = entries d - {(key offset, s)}"
      unfolding d1_def by (rule pop_segment_entries [OF "1.prems"])
    have sc: "scan key s step offset d = scan key s step (offset + step) d1"
      using True unfolding d1_def by (subst scan.simps) simp
    from "1.IH" [OF True] wf1 obtain n where n:
      "fst (scan key s step (offset + step) d1) = offset + step + int n * step"
      "wf_dict (snd (scan key s step (offset + step) d1))"
      "entries (snd (scan key s step (offset + step) d1))
         = entries d1 - (\<lambda>i. (key (offset + step + int i * step), s)) ` {..<n}"
      "\<forall>i<n. (key (offset + step + int i * step), s) \<in> entries d1"
      unfolding d1_def by blast
    have shift: "offset + step + int i * step = offset + int (Suc i) * step" for i
      by (simp add: algebra_simps)
    have img: "(\<lambda>i. (key (offset + int i * step), s)) ` {..<Suc n}
        = insert (key offset, s) ((\<lambda>i. (key (offset + step + int i * step), s)) ` {..<n})"
    proof -
      have "{..<Suc n} = insert 0 (Suc ` {..<n})"
        by (auto simp: lessThan_Suc_eq_insert_0)
      then show ?thesis by (simp add: image_image shift del: of_nat_Suc)
    qed
    have a: "fst (scan key s step offset d) = offset + int (Suc n) * step"
      using n(1) sc by (simp add: algebra_simps)
    have b: "entries (snd (scan key s step offset d))
         = entries d - (\<lambda>i. (key (offset + int i * step), s)) ` {..<Suc n}"
      unfolding sc n(3) e1 img by blast
    have c: "\<forall>i<Suc n. (key (offset + int i * step), s) \<in> entries d"
    proof (intro allI impI)
      fix i assume "i < Suc n"
      show "(key (offset + int i * step), s) \<in> entries d"
      proof (cases i)
        case 0
        then show ?thesis using here by simp
      next
        case (Suc j)
        then have "j < n" using \<open>i < Suc n\<close> by simp
        then have "(key (offset + step + int j * step), s) \<in> entries d1" using n(4) by blast
        then show ?thesis using e1 Suc shift [of j] by simp
      qed
    qed
    show ?thesis
      using a b c n(2) sc by (intro exI [of _ "Suc n"]) simp
  qed
qed

lemma down_range: "(\<lambda>i. 0 + int i * (- 1)) ` {..<n} = {- int n + 1 .. 0}"
proof
  show "(\<lambda>i. 0 + int i * (- 1)) ` {..<n} \<subseteq> {- int n + 1 .. 0}" by auto
next
  show "{- int n + 1 .. 0} \<subseteq> (\<lambda>i. 0 + int i * (- 1)) ` {..<n}"
  proof
    fix x assume "x \<in> {- int n + 1 .. 0}"
    then have "nat (- x) < n" "x = 0 + int (nat (- x)) * (- 1)" by auto
    then show "x \<in> (\<lambda>i. 0 + int i * (- 1)) ` {..<n}" by blast
  qed
qed

lemma up_range: "(\<lambda>i. 1 + int i * 1) ` {..<n} = {1 .. int n}"
proof
  show "(\<lambda>i. 1 + int i * 1) ` {..<n} \<subseteq> {1 .. int n}" by auto
next
  show "{1 .. int n} \<subseteq> (\<lambda>i. 1 + int i * 1) ` {..<n}"
  proof
    fix x assume "x \<in> {1 .. int n}"
    then have "nat (x - 1) < n" "x = 1 + int (nat (x - 1)) * 1" by auto
    then show "x \<in> (\<lambda>i. 1 + int i * 1) ` {..<n}" by blast
  qed
qed

lemma double_scan:
  assumes wf: "wf_dict d" and here: "(key 0, s) \<in> entries d"
    and s1: "scan key s (- 1) 0 d = (o1, d1)"
    and s2: "scan key s 1 1 d1 = (o2, d2)"
  shows "o1 + 1 \<le> 0 \<and> 0 \<le> o2 - 1 \<and> wf_dict d2 \<and>
         entries d2 = entries d - (\<lambda>i. (key i, s)) ` {o1 + 1 .. o2 - 1} \<and>
         (\<forall>i \<in> {o1 + 1 .. o2 - 1}. (key i, s) \<in> entries d)"
proof -
  from scan_entries [OF wf, of key s "- 1" 0] s1 here obtain n where n:
    "o1 = 0 + int n * (- 1)" "wf_dict d1"
    "entries d1 = entries d - (\<lambda>i. (key (0 + int i * (- 1)), s)) ` {..<n}"
    "\<forall>i<n. (key (0 + int i * (- 1)), s) \<in> entries d" "0 < n"
    by auto
  from scan_entries [OF n(2), of key s 1 1] s2 obtain m where m:
    "o2 = 1 + int m * 1" "wf_dict d2"
    "entries d2 = entries d1 - (\<lambda>i. (key (1 + int i * 1), s)) ` {..<m}"
    "\<forall>i<m. (key (1 + int i * 1), s) \<in> entries d1"
    by auto
  have D: "(\<lambda>i. (key (0 + int i * (- 1)), s)) ` {..<n} = (\<lambda>i. (key i, s)) ` {- int n + 1 .. 0}"
    by (simp only: down_range [symmetric] image_image)
  have U: "(\<lambda>i. (key (1 + int i * 1), s)) ` {..<m} = (\<lambda>i. (key i, s)) ` {1 .. int m}"
    by (simp only: up_range [symmetric] image_image)
  have split: "{o1 + 1 .. o2 - 1} = {- int n + 1 .. 0} \<union> {1 .. int m}"
    using n(1,5) m(1) by auto
  have e: "entries d2 = entries d - (\<lambda>i. (key i, s)) ` {o1 + 1 .. o2 - 1}"
    unfolding m(3) n(3) D U split by blast
  have mem: "\<forall>i \<in> {o1 + 1 .. o2 - 1}. (key i, s) \<in> entries d"
  proof
    fix i assume "i \<in> {o1 + 1 .. o2 - 1}"
    then consider "i \<in> {- int n + 1 .. 0}" | "i \<in> {1 .. int m}" using split by blast
    then show "(key i, s) \<in> entries d"
    proof cases
      case 1
      then have "(key i, s) \<in> (\<lambda>i. (key (0 + int i * (- 1)), s)) ` {..<n}" unfolding D by blast
      then show ?thesis using n(4) by auto
    next
      case 2
      then have "(key i, s) \<in> (\<lambda>i. (key (1 + int i * 1), s)) ` {..<m}" unfolding U by blast
      then have "(key i, s) \<in> entries d1" using m(4) by auto
      then show ?thesis using n(3) by blast
    qed
  qed
  show ?thesis using n(1,5) m(1,2) e mem by auto
qed

lemma disjoint_family_empty [simp]: "disjoint_family cov {}"
  by (simp add: disjoint_family_def)

lemma disjoint_family_subset: "disjoint_family cov E \<Longrightarrow> E' \<subseteq> E \<Longrightarrow> disjoint_family cov E'"
  unfolding disjoint_family_def by blast

lemma disjoint_family_rest:
  assumes "disjoint_family cov E" "R \<subseteq> E" "e \<in> E - R"
  shows "cov e \<inter> \<Union> (cov ` R) = {}"
proof -
  have "cov e \<inter> cov r = {}" if "r \<in> R" for r
  proof -
    have "r \<in> E" "e \<in> E" "e \<noteq> r" using that assms(2,3) by auto
    then show ?thesis using assms(1) unfolding disjoint_family_def by blast
  qed
  then show ?thesis by blast
qed

lemma disjoint_family_insert:
  assumes "disjoint_family cov E" and "\<forall>e \<in> E. e \<noteq> t \<longrightarrow> cov e \<inter> cov t = {}"
  shows "disjoint_family cov (insert t E)"
  unfolding disjoint_family_def
proof (intro ballI impI)
  fix a b
  assume a: "a \<in> insert t E" and b: "b \<in> insert t E" and ne: "a \<noteq> b"
  have old: "x \<in> E \<Longrightarrow> y \<in> E \<Longrightarrow> x \<noteq> y \<Longrightarrow> cov x \<inter> cov y = {}" for x y
    using assms(1) unfolding disjoint_family_def by blast
  have new: "x \<in> E \<Longrightarrow> x \<noteq> t \<Longrightarrow> cov x \<inter> cov t = {}" for x
    using assms(2) by blast
  show "cov a \<inter> cov b = {}"
  proof (cases "a = t")
    case True
    then have "b \<in> E" "b \<noteq> t" using b ne by auto
    from new [OF this] show ?thesis using True by (simp add: Int_commute)
  next
    case False
    then have aE: "a \<in> E" using a by simp
    show ?thesis
    proof (cases "b = t")
      case True
      then show ?thesis using new [OF aE False] by simp
    next
      case False
      then have "b \<in> E" using b by simp
      from old [OF aE this ne] show ?thesis .
    qed
  qed
qed

lemma plane_cells_rows:
  "plane_cells (z, (xs, lo, xe, hi)) = \<Union> (row_cells ` ((\<lambda>y. ((y, z), (xs, xe))) ` {lo .. hi}))"
  by (auto simp: plane_cells_def row_cells_def)

lemma box_cells_planes:
  "box_cells (xs, ys, lo, xe, ye, hi) = \<Union> (plane_cells ` ((\<lambda>z. (z, (xs, ys, xe, ye))) ` {lo .. hi}))"
  by (auto simp: plane_cells_def box_cells_def)

lemma shift_range: "(\<lambda>i. f (y + i)) ` {a .. b} = f ` {y + a .. y + (b :: int)}"
proof -
  have "(\<lambda>i. y + i) ` {a .. b} = {y + a .. y + b}"
  proof (rule set_eqI, rule iffI)
    fix x assume "x \<in> (\<lambda>i. y + i) ` {a .. b}"
    then show "x \<in> {y + a .. y + b}" by auto
  next
    fix x assume "x \<in> {y + a .. y + b}"
    then have "x - y \<in> {a .. b}" "x = y + (x - y)" by auto
    then show "x \<in> (\<lambda>i. y + i) ` {a .. b}" by blast
  qed
  from \<open>(\<lambda>i. y + i) ` {a .. b} = {y + a .. y + b}\<close>
  have "f ` ((\<lambda>i. y + i) ` {a .. b}) = f ` {y + a .. y + b}" by (simp only:)
  then show ?thesis by (simp only: image_image)
qed

lemma capture_plane_spec:
  assumes wf: "wf_dict rows" and here: "((y, z), (xs, xe)) \<in> entries rows"
  obtains lo hi rows' where
    "capture_plane y z xs xe rows = ((xs, lo, xe, hi), rows')"
    "wf_dict rows'"
    "(\<lambda>y'. ((y', z), (xs, xe))) ` {lo .. hi} \<subseteq> entries rows"
    "entries rows' = entries rows - (\<lambda>y'. ((y', z), (xs, xe))) ` {lo .. hi}"
proof -
  obtain o1 r1 where s1: "scan (\<lambda>offset. (y + offset, z)) (xs, xe) (- 1) 0 rows = (o1, r1)"
    by (cases "scan (\<lambda>offset. (y + offset, z)) (xs, xe) (- 1) 0 rows")
  obtain o2 r2 where s2: "scan (\<lambda>offset. (y + offset, z)) (xs, xe) 1 1 r1 = (o2, r2)"
    by (cases "scan (\<lambda>offset. (y + offset, z)) (xs, xe) 1 1 r1")
  have here': "((y + 0, z), (xs, xe)) \<in> entries rows" using here by simp
  from double_scan [of rows "\<lambda>offset. (y + offset, z)" "(xs, xe)", OF wf here' s1 s2]
  have d: "wf_dict r2"
    "entries r2 = entries rows - (\<lambda>i. ((y + i, z), (xs, xe))) ` {o1 + 1 .. o2 - 1}"
    "\<forall>i \<in> {o1 + 1 .. o2 - 1}. ((y + i, z), (xs, xe)) \<in> entries rows"
    by simp_all
  have sh: "(\<lambda>i. ((y + i, z), (xs, xe))) ` {o1 + 1 .. o2 - 1}
              = (\<lambda>y'. ((y', z), (xs, xe))) ` {y + (o1 + 1) .. y + (o2 - 1)}"
    by (rule shift_range [of "\<lambda>y'. ((y', z), (xs, xe))"])
  have c: "capture_plane y z xs xe rows = ((xs, y + (o1 + 1), xe, y + (o2 - 1)), r2)"
    by (simp add: capture_plane_def s1 s2)
  have sub: "(\<lambda>y'. ((y', z), (xs, xe))) ` {y + (o1 + 1) .. y + (o2 - 1)} \<subseteq> entries rows"
    unfolding sh [symmetric] using d(3) by blast
  show ?thesis
    using that [OF c d(1) sub] d(2) unfolding sh by blast
qed

lemma capture_quad_spec:
  assumes wf: "wf_dict planes" and here: "(z, (xs, ys, xe, ye)) \<in> entries planes"
  obtains lo hi planes' where
    "capture_quad z xs ys xe ye planes = ((xs, ys, lo, xe, ye, hi), planes')"
    "wf_dict planes'"
    "(\<lambda>z'. (z', (xs, ys, xe, ye))) ` {lo .. hi} \<subseteq> entries planes"
    "entries planes' = entries planes - (\<lambda>z'. (z', (xs, ys, xe, ye))) ` {lo .. hi}"
proof -
  obtain o1 r1 where s1: "scan (\<lambda>offset. z + offset) (xs, ys, xe, ye) (- 1) 0 planes = (o1, r1)"
    by (cases "scan (\<lambda>offset. z + offset) (xs, ys, xe, ye) (- 1) 0 planes")
  obtain o2 r2 where s2: "scan (\<lambda>offset. z + offset) (xs, ys, xe, ye) 1 1 r1 = (o2, r2)"
    by (cases "scan (\<lambda>offset. z + offset) (xs, ys, xe, ye) 1 1 r1")
  have here': "(z + 0, (xs, ys, xe, ye)) \<in> entries planes" using here by simp
  from double_scan [of planes "\<lambda>offset. z + offset" "(xs, ys, xe, ye)", OF wf here' s1 s2]
  have d: "wf_dict r2"
    "entries r2 = entries planes - (\<lambda>i. (z + i, (xs, ys, xe, ye))) ` {o1 + 1 .. o2 - 1}"
    "\<forall>i \<in> {o1 + 1 .. o2 - 1}. (z + i, (xs, ys, xe, ye)) \<in> entries planes"
    by simp_all
  have sh: "(\<lambda>i. (z + i, (xs, ys, xe, ye))) ` {o1 + 1 .. o2 - 1}
              = (\<lambda>z'. (z', (xs, ys, xe, ye))) ` {z + (o1 + 1) .. z + (o2 - 1)}"
    by (rule shift_range [of "\<lambda>z'. (z', (xs, ys, xe, ye))"])
  have c: "capture_quad z xs ys xe ye planes = ((xs, ys, z + (o1 + 1), xe, ye, z + (o2 - 1)), r2)"
    by (simp add: capture_quad_def s1 s2)
  have sub: "(\<lambda>z'. (z', (xs, ys, xe, ye))) ` {z + (o1 + 1) .. z + (o2 - 1)} \<subseteq> entries planes"
    unfolding sh [symmetric] using d(3) by blast
  show ?thesis
    using that [OF c d(1) sub] d(2) unfolding sh by blast
qed

lemma nth_mod_mem: "xs \<noteq> [] \<Longrightarrow> xs ! (k mod length xs) \<in> set xs"
  by simp

lemma capture_planes_loop_correct:
  "wf_dict rows \<Longrightarrow> wf_dict planes \<Longrightarrow>
   disjoint_family row_cells (entries rows) \<Longrightarrow>
   disjoint_family plane_cells (entries planes) \<Longrightarrow>
   (\<forall>r \<in> entries rows. \<forall>p \<in> entries planes. row_cells r \<inter> plane_cells p = {}) \<Longrightarrow>
   \<exists>planes'. capture_planes_loop pick n rows planes = Inr planes' \<and> wf_dict planes' \<and>
      disjoint_family plane_cells (entries planes') \<and>
      \<Union> (plane_cells ` entries planes')
        = \<Union> (row_cells ` entries rows) \<union> \<Union> (plane_cells ` entries planes)"
proof (induction pick n rows planes rule: capture_planes_loop.induct)
  case (1 pick n planes)
  then show ?case by (simp add: capture_planes_loop.simps)
next
  case (2 pick n y z row_set rest planes)
  let ?rows = "((y, z), row_set) # rest"
  have ne: "row_set \<noteq> []"
    using "2.prems"(1) by (simp add: wf_dict_Cons)
  define segment where "segment = row_set ! (pick n mod length row_set)"
  obtain xs xe where seg: "segment = (xs, xe)" by (cases segment)
  have "segment \<in> set row_set" unfolding segment_def by (rule nth_mod_mem [OF ne])
  then have here: "((y, z), (xs, xe)) \<in> entries ?rows"
    by (auto simp: entries_Cons seg)
  from capture_plane_spec [OF "2.prems"(1) here]
  obtain lo hi rows' where c:
    "capture_plane y z xs xe ?rows = ((xs, lo, xe, hi), rows')"
    "wf_dict rows'"
    "(\<lambda>y'. ((y', z), (xs, xe))) ` {lo .. hi} \<subseteq> entries ?rows"
    "entries rows' = entries ?rows - (\<lambda>y'. ((y', z), (xs, xe))) ` {lo .. hi}"
    by blast
  define R where "R = (\<lambda>y'. ((y', z), (xs, xe))) ` {lo .. hi}"
  define planes1 where "planes1 = dict_add z (xs, lo, xe, hi) planes"
  have cov: "plane_cells (z, (xs, lo, xe, hi)) = \<Union> (row_cells ` R)"
    unfolding R_def by (rule plane_cells_rows)
  have Rsub: "R \<subseteq> entries ?rows" using c(3) by (simp add: R_def)
  have e': "entries rows' = entries ?rows - R" using c(4) by (simp add: R_def)
  have e1: "entries planes1 = insert (z, (xs, lo, xe, hi)) (entries planes)"
    unfolding planes1_def by (rule entries_dict_add)
  have wf1: "wf_dict planes1"
    unfolding planes1_def by (rule wf_dict_add [OF "2.prems"(2)])
  have dr: "disjoint_family row_cells (entries rows')"
    by (rule disjoint_family_subset [OF "2.prems"(3)]) (simp add: e')
  have newp: "\<forall>p \<in> entries planes. p \<noteq> (z, (xs, lo, xe, hi)) \<longrightarrow>
      plane_cells p \<inter> plane_cells (z, (xs, lo, xe, hi)) = {}"
  proof (intro ballI impI)
    fix p assume p: "p \<in> entries planes"
    have "row_cells r \<inter> plane_cells p = {}" if "r \<in> R" for r
      using "2.prems"(5) Rsub that p by blast
    then show "plane_cells p \<inter> plane_cells (z, (xs, lo, xe, hi)) = {}"
      unfolding cov by blast
  qed
  have dp: "disjoint_family plane_cells (entries planes1)"
    unfolding e1 by (rule disjoint_family_insert [OF "2.prems"(4) newp])
  have cross: "\<forall>r \<in> entries rows'. \<forall>p \<in> entries planes1. row_cells r \<inter> plane_cells p = {}"
  proof (intro ballI)
    fix r p assume r: "r \<in> entries rows'" and p: "p \<in> entries planes1"
    show "row_cells r \<inter> plane_cells p = {}"
    proof (cases "p = (z, (xs, lo, xe, hi))")
      case True
      have "r \<in> entries ?rows - R" using r e' by simp
      from disjoint_family_rest [OF "2.prems"(3) Rsub this] show ?thesis
        unfolding True cov .
    next
      case False
      then have "p \<in> entries planes" using p e1 by simp
      moreover have "r \<in> entries ?rows" using r e' by simp
      ultimately show ?thesis using "2.prems"(5) by blast
    qed
  qed
  have captured: "capture_plane y z (fst segment) (snd segment) ?rows = ((xs, lo, xe, hi), rows')"
    using c(1) by (simp add: seg)
  from "2.IH" [OF ne segment_def refl, unfolded captured snd_conv fst_conv,
      folded planes1_def, OF c(2) wf1 dr dp cross]
  obtain planes' where r: "capture_planes_loop pick (Suc n) rows' planes1 = Inr planes'"
    "wf_dict planes'" "disjoint_family plane_cells (entries planes')"
    "\<Union> (plane_cells ` entries planes')
        = \<Union> (row_cells ` entries rows') \<union> \<Union> (plane_cells ` entries planes1)"
    by blast
  have step: "capture_planes_loop pick n ?rows planes = capture_planes_loop pick (Suc n) rows' planes1"
    using ne captured
    by (simp add: capture_planes_loop.simps Let_def segment_def [symmetric] planes1_def)
  have "\<Union> (row_cells ` entries rows') \<union> \<Union> (plane_cells ` entries planes1)
      = \<Union> (row_cells ` entries ?rows) \<union> \<Union> (plane_cells ` entries planes)"
    unfolding e' e1 using Rsub cov by auto
  then show ?case
    using r step by auto
qed

lemma disjoint_boxes_Nil [simp]: "disjoint_boxes []"
  by (simp add: disjoint_boxes_def)

lemma disjoint_boxes_snoc:
  assumes "disjoint_boxes quads" and "\<forall>q \<in> set quads. box_cells q \<inter> box_cells t = {}"
  shows "disjoint_boxes (quads @ [t])"
  unfolding disjoint_boxes_def
proof (intro allI impI)
  fix i j
  assume i: "i < length (quads @ [t])" and j: "j < length (quads @ [t])" and ne: "i \<noteq> j"
  have old: "a < length quads \<Longrightarrow> b < length quads \<Longrightarrow> a \<noteq> b \<Longrightarrow>
      box_cells (quads ! a) \<inter> box_cells (quads ! b) = {}" for a b
    using assms(1) unfolding disjoint_boxes_def by blast
  have new: "a < length quads \<Longrightarrow> box_cells (quads ! a) \<inter> box_cells t = {}" for a
    using assms(2) by simp
  show "box_cells ((quads @ [t]) ! i) \<inter> box_cells ((quads @ [t]) ! j) = {}"
  proof (cases "i < length quads")
    case True
    show ?thesis
    proof (cases "j < length quads")
      case j': True
      from old [OF True j' ne] show ?thesis using True j' by (simp add: nth_append)
    next
      case False
      then have "j = length quads" using j by simp
      then show ?thesis using new [OF True] True by (simp add: nth_append)
    qed
  next
    case False
    then have i': "i = length quads" using i by simp
    then have j': "j < length quads" using j ne by simp
    from new [OF j'] show ?thesis using i' j' by (simp add: nth_append Int_commute)
  qed
qed

lemma capture_quads_loop_correct:
  "wf_dict planes \<Longrightarrow>
   disjoint_family plane_cells (entries planes) \<Longrightarrow>
   disjoint_boxes quads \<Longrightarrow>
   (\<forall>p \<in> entries planes. \<forall>q \<in> set quads. plane_cells p \<inter> box_cells q = {}) \<Longrightarrow>
   \<exists>quads'. capture_quads_loop pick n planes quads = Inr quads' \<and> disjoint_boxes quads' \<and>
      \<Union> (box_cells ` set quads')
        = \<Union> (plane_cells ` entries planes) \<union> \<Union> (box_cells ` set quads)"
proof (induction pick n planes quads rule: capture_quads_loop.induct)
  case (1 pick n quads)
  then show ?case by (simp add: capture_quads_loop.simps)
next
  case (2 pick n z plane_set rest quads)
  let ?planes = "(z, plane_set) # rest"
  have ne: "plane_set \<noteq> []"
    using "2.prems"(1) by (simp add: wf_dict_Cons)
  define plane where "plane = plane_set ! (pick n mod length plane_set)"
  obtain xs ys xe ye where pl: "plane = (xs, ys, xe, ye)" by (cases plane)
  have "plane \<in> set plane_set" unfolding plane_def by (rule nth_mod_mem [OF ne])
  then have here: "(z, (xs, ys, xe, ye)) \<in> entries ?planes"
    by (auto simp: entries_Cons pl)
  from capture_quad_spec [OF "2.prems"(1) here]
  obtain lo hi planes' where c:
    "capture_quad z xs ys xe ye ?planes = ((xs, ys, lo, xe, ye, hi), planes')"
    "wf_dict planes'"
    "(\<lambda>z'. (z', (xs, ys, xe, ye))) ` {lo .. hi} \<subseteq> entries ?planes"
    "entries planes' = entries ?planes - (\<lambda>z'. (z', (xs, ys, xe, ye))) ` {lo .. hi}"
    by blast
  define R where "R = (\<lambda>z'. (z', (xs, ys, xe, ye))) ` {lo .. hi}"
  define t where "t = (xs, ys, lo, xe, ye, hi)"
  have cov: "box_cells t = \<Union> (plane_cells ` R)"
    unfolding R_def t_def by (rule box_cells_planes)
  have Rsub: "R \<subseteq> entries ?planes" using c(3) by (simp add: R_def)
  have e': "entries planes' = entries ?planes - R" using c(4) by (simp add: R_def)
  have dp: "disjoint_family plane_cells (entries planes')"
    by (rule disjoint_family_subset [OF "2.prems"(2)]) (simp add: e')
  have newq: "\<forall>q \<in> set quads. box_cells q \<inter> box_cells t = {}"
  proof
    fix q assume q: "q \<in> set quads"
    have "plane_cells r \<inter> box_cells q = {}" if "r \<in> R" for r
      using "2.prems"(4) Rsub that q by blast
    then show "box_cells q \<inter> box_cells t = {}"
      unfolding cov by blast
  qed
  have db: "disjoint_boxes (quads @ [t])"
    by (rule disjoint_boxes_snoc [OF "2.prems"(3) newq])
  have cross: "\<forall>p \<in> entries planes'. \<forall>q \<in> set (quads @ [t]). plane_cells p \<inter> box_cells q = {}"
  proof (intro ballI)
    fix p q assume p: "p \<in> entries planes'" and q: "q \<in> set (quads @ [t])"
    show "plane_cells p \<inter> box_cells q = {}"
    proof (cases "q = t")
      case True
      have "p \<in> entries ?planes - R" using p e' by simp
      from disjoint_family_rest [OF "2.prems"(2) Rsub this] show ?thesis
        unfolding True cov .
    next
      case False
      then have "q \<in> set quads" using q by simp
      moreover have "p \<in> entries ?planes" using p e' by simp
      ultimately show ?thesis using "2.prems"(4) by blast
    qed
  qed
  have captured: "(case plane of (x_start, y_start, x_end, y_end) \<Rightarrow>
                     capture_quad z x_start y_start x_end y_end ?planes) = (t, planes')"
    using c(1) by (simp add: pl t_def)
  from "2.IH" [OF ne plane_def refl, unfolded captured snd_conv fst_conv, OF c(2) dp db cross]
  obtain quads' where r: "capture_quads_loop pick (Suc n) planes' (quads @ [t]) = Inr quads'"
    "disjoint_boxes quads'"
    "\<Union> (box_cells ` set quads')
        = \<Union> (plane_cells ` entries planes') \<union> \<Union> (box_cells ` set (quads @ [t]))"
    by blast
  have step: "capture_quads_loop pick n ?planes quads
                = capture_quads_loop pick (Suc n) planes' (quads @ [t])"
    using ne captured
    by (simp add: capture_quads_loop.simps Let_def plane_def [symmetric])
  have "\<Union> (plane_cells ` entries planes') \<union> \<Union> (box_cells ` set (quads @ [t]))
      = \<Union> (plane_cells ` entries ?planes) \<union> \<Union> (box_cells ` set quads)"
    unfolding e' using Rsub cov by auto
  then show ?case
    using r step by auto
qed

lemma is_crown_nonneg: "is_crown g (x, y, z) \<Longrightarrow> 0 \<le> x"
  by (auto simp: is_crown_def in_bounds_def split: prod.splits)

lemma is_crown_below: "is_crown g (x, y, z) \<Longrightarrow> x < int (fst (shape g))"
  by (auto simp: is_crown_def in_bounds_def split: prod.splits)

lemma run_start_exists:
  assumes "is_crown g (e, y, z)"
  shows "\<exists>s. s \<le> e \<and> (\<forall>x \<in> {s .. e}. is_crown g (x, y, z)) \<and> \<not> is_crown g (s - 1, y, z)"
proof -
  have "is_crown g (e, y, z) \<Longrightarrow> nat e = n \<Longrightarrow>
      \<exists>s. s \<le> e \<and> (\<forall>x \<in> {s .. e}. is_crown g (x, y, z)) \<and> \<not> is_crown g (s - 1, y, z)" for n
  proof (induction n arbitrary: e)
    case 0
    then have "e = 0" using is_crown_nonneg [of g e y z] by simp
    moreover have "\<not> is_crown g (- 1, y, z)" using is_crown_nonneg [of g "- 1" y z] by auto
    ultimately show ?case using 0 by (intro exI [of _ 0]) auto
  next
    case (Suc n)
    show ?case
    proof (cases "is_crown g (e - 1, y, z)")
      case False
      then show ?thesis using Suc.prems(1) by (intro exI [of _ e]) auto
    next
      case True
      have "nat (e - 1) = n" using Suc.prems(2) by simp
      from Suc.IH [OF True this] obtain s where s: "s \<le> e - 1"
        "\<forall>x \<in> {s .. e - 1}. is_crown g (x, y, z)" "\<not> is_crown g (s - 1, y, z)"
        by blast
      have "\<forall>x \<in> {s .. e}. is_crown g (x, y, z)"
      proof
        fix x assume "x \<in> {s .. e}"
        then have "x \<in> {s .. e - 1} \<or> x = e" by auto
        then show "is_crown g (x, y, z)" using s(2) Suc.prems(1) by blast
      qed
      then show ?thesis using s(1,3) by (intro exI [of _ s]) auto
    qed
  qed
  then show ?thesis using assms by blast
qed

lemma run_end_exists:
  assumes "is_crown g (x, y, z)"
  shows "\<exists>e. x \<le> e \<and> (\<forall>x' \<in> {x .. e}. is_crown g (x', y, z)) \<and> \<not> is_crown g (e + 1, y, z)"
proof -
  have "is_crown g (x, y, z) \<Longrightarrow> nat (int (fst (shape g)) - x) = n \<Longrightarrow>
      \<exists>e. x \<le> e \<and> (\<forall>x' \<in> {x .. e}. is_crown g (x', y, z)) \<and> \<not> is_crown g (e + 1, y, z)" for n
  proof (induction n arbitrary: x)
    case 0
    then show ?case using is_crown_below [of g x y z] by simp
  next
    case (Suc n)
    show ?case
    proof (cases "is_crown g (x + 1, y, z)")
      case False
      then show ?thesis using Suc.prems(1) by (intro exI [of _ x]) auto
    next
      case True
      have "nat (int (fst (shape g)) - (x + 1)) = n" using Suc.prems(2) by simp
      from Suc.IH [OF True this] obtain e where e: "x + 1 \<le> e"
        "\<forall>x' \<in> {x + 1 .. e}. is_crown g (x', y, z)" "\<not> is_crown g (e + 1, y, z)"
        by blast
      have "\<forall>x' \<in> {x .. e}. is_crown g (x', y, z)"
      proof
        fix x' assume "x' \<in> {x .. e}"
        then have "x' \<in> {x + 1 .. e} \<or> x' = x" by auto
        then show "is_crown g (x', y, z)" using e(2) Suc.prems(1) by blast
      qed
      then show ?thesis using e(1,3) by (intro exI [of _ e]) auto
    qed
  qed
  then show ?thesis using assms by blast
qed

lemma run_start_unique:
  assumes "s \<le> e" "\<forall>x \<in> {s .. e}. is_crown g (x, y, z)" "\<not> is_crown g (s - 1, y, z)"
    and "s' \<le> e" "is_crown g (s', y, z)" "\<not> is_crown g (s' - 1, y, z)" "s \<le> s'"
  shows "s' = s"
proof (rule ccontr)
  assume "s' \<noteq> s"
  then have "s' - 1 \<in> {s .. e}" using assms(4,7) by auto
  then show False using assms(2,6) by blast
qed

lemma maximal_runs_cover: "\<Union> (row_cells ` maximal_runs g) = {c. is_crown g c}"
proof (rule set_eqI, rule iffI)
  fix c assume "c \<in> \<Union> (row_cells ` maximal_runs g)"
  then obtain y z s e x where "c = (x, y, z)" "x \<in> {s .. e}" "\<forall>x \<in> {s .. e}. is_crown g (x, y, z)"
    by (auto simp: maximal_runs_def row_cells_def)
  then show "c \<in> {c. is_crown g c}" by blast
next
  fix c assume "c \<in> {c. is_crown g c}"
  then obtain x y z where c: "c = (x, y, z)" "is_crown g (x, y, z)" by (cases c) auto
  from run_start_exists [OF c(2)] obtain s where s: "s \<le> x"
    "\<forall>x' \<in> {s .. x}. is_crown g (x', y, z)" "\<not> is_crown g (s - 1, y, z)" by blast
  from run_end_exists [OF c(2)] obtain e where e: "x \<le> e"
    "\<forall>x' \<in> {x .. e}. is_crown g (x', y, z)" "\<not> is_crown g (e + 1, y, z)" by blast
  have "\<forall>x' \<in> {s .. e}. is_crown g (x', y, z)"
  proof
    fix x' assume "x' \<in> {s .. e}"
    then have "x' \<in> {s .. x} \<or> x' \<in> {x .. e}" by auto
    then show "is_crown g (x', y, z)" using s(2) e(2) by blast
  qed
  then have "((y, z), (s, e)) \<in> maximal_runs g"
    using s(1,3) e(1,3) by (auto simp: maximal_runs_def)
  moreover have "c \<in> row_cells ((y, z), (s, e))"
    using c(1) s(1) e(1) by (simp add: row_cells_def)
  ultimately show "c \<in> \<Union> (row_cells ` maximal_runs g)" by blast
qed

lemma maximal_runs_disjoint: "disjoint_family row_cells (maximal_runs g)"
  unfolding disjoint_family_def
proof (intro ballI impI)
  fix a b assume a: "a \<in> maximal_runs g" and b: "b \<in> maximal_runs g" and ne: "a \<noteq> b"
  obtain y z s e where a': "a = ((y, z), (s, e))" "s \<le> e"
    "\<forall>x \<in> {s .. e}. is_crown g (x, y, z)" "\<not> is_crown g (s - 1, y, z)" "\<not> is_crown g (e + 1, y, z)"
    using a by (auto simp: maximal_runs_def)
  obtain y' z' s' e' where b': "b = ((y', z'), (s', e'))" "s' \<le> e'"
    "\<forall>x \<in> {s' .. e'}. is_crown g (x, y', z')" "\<not> is_crown g (s' - 1, y', z')"
    "\<not> is_crown g (e' + 1, y', z')"
    using b by (auto simp: maximal_runs_def)
  show "row_cells a \<inter> row_cells b = {}"
  proof (rule ccontr)
    assume "row_cells a \<inter> row_cells b \<noteq> {}"
    then obtain x where x: "y' = y" "z' = z" "x \<in> {s .. e}" "x \<in> {s' .. e'}"
      by (auto simp: a'(1) b'(1) row_cells_def)
    have "s = s'"
    proof (rule ccontr)
      assume "s \<noteq> s'"
      then consider "s < s'" | "s' < s" by linarith
      then show False
      proof cases
        case 1
        then have "s' - 1 \<in> {s .. e}" using x(3,4) by auto
        then show ?thesis using a'(3) b'(4) x(1,2) by blast
      next
        case 2
        then have "s - 1 \<in> {s' .. e'}" using x(3,4) by auto
        then show ?thesis using b'(3) a'(4) x(1,2) by blast
      qed
    qed
    moreover have "e = e'"
    proof (rule ccontr)
      assume "e \<noteq> e'"
      then consider "e < e'" | "e' < e" by linarith
      then show False
      proof cases
        case 1
        then have "e + 1 \<in> {s' .. e'}" using x(3,4) by auto
        then show ?thesis using b'(3) a'(5) x(1,2) by blast
      next
        case 2
        then have "e' + 1 \<in> {s .. e}" using x(3,4) by auto
        then show ?thesis using a'(3) b'(5) x(1,2) by blast
      qed
    qed
    ultimately show False using ne a'(1) b'(1) x(1,2) by simp
  qed
qed

lemma row_entries_Nil [simp]: "row_entries [] start_map = {}"
  by (simp add: row_entries_def)

lemma row_entries_start:
  "row_entries ((x, y, z, 0) # L) start_map = row_entries L (start_map((y, z) \<mapsto> x))"
proof (rule set_eqI, rule iffI)
  fix r assume "r \<in> row_entries ((x, y, z, 0) # L) start_map"
  then obtain P x' y' z' flag Q s where r: "r = ((y', z'), (s, x'))"
    "(x, y, z, 0) # L = P @ (x', y', z', flag) # Q" "flag \<noteq> 0"
    "start_map_after P start_map (y', z') = Some s"
    unfolding row_entries_def by blast
  from r(2,3) obtain P' where P': "P = (x, y, z, 0) # P'" "L = P' @ (x', y', z', flag) # Q"
    by (cases P) auto
  then have "start_map_after P' (start_map((y, z) \<mapsto> x)) (y', z') = Some s"
    using r(4) by simp
  then show "r \<in> row_entries L (start_map((y, z) \<mapsto> x))"
    unfolding row_entries_def using r(1,3) P'(2) by blast
next
  fix r assume "r \<in> row_entries L (start_map((y, z) \<mapsto> x))"
  then obtain P x' y' z' flag Q s where r: "r = ((y', z'), (s, x'))"
    "L = P @ (x', y', z', flag) # Q" "flag \<noteq> 0"
    "start_map_after P (start_map((y, z) \<mapsto> x)) (y', z') = Some s"
    unfolding row_entries_def by blast
  have "(x, y, z, 0) # L = ((x, y, z, 0) # P) @ (x', y', z', flag) # Q" using r(2) by simp
  moreover have "start_map_after ((x, y, z, 0) # P) start_map (y', z') = Some s" using r(4) by simp
  ultimately show "r \<in> row_entries ((x, y, z, 0) # L) start_map"
    unfolding row_entries_def using r(1,3) by blast
qed

lemma row_entries_end:
  assumes "flag \<noteq> 0" "start_map (y, z) = Some s"
  shows "row_entries ((x, y, z, flag) # L) start_map = insert ((y, z), (s, x)) (row_entries L start_map)"
proof (rule set_eqI, rule iffI)
  fix r assume "r \<in> row_entries ((x, y, z, flag) # L) start_map"
  then obtain P x' y' z' flag' Q s' where r: "r = ((y', z'), (s', x'))"
    "(x, y, z, flag) # L = P @ (x', y', z', flag') # Q" "flag' \<noteq> 0"
    "start_map_after P start_map (y', z') = Some s'"
    unfolding row_entries_def by blast
  show "r \<in> insert ((y, z), (s, x)) (row_entries L start_map)"
  proof (cases P)
    case Nil
    then show ?thesis using r assms by auto
  next
    case (Cons a P')
    then have P': "a = (x, y, z, flag)" "L = P' @ (x', y', z', flag') # Q" using r(2) by auto
    then have "start_map_after P' start_map (y', z') = Some s'"
      using r(4) Cons assms(1) by simp
    then have "r \<in> row_entries L start_map"
      unfolding row_entries_def using r(1,3) P'(2) by blast
    then show ?thesis by simp
  qed
next
  fix r assume "r \<in> insert ((y, z), (s, x)) (row_entries L start_map)"
  then consider "r = ((y, z), (s, x))" | "r \<in> row_entries L start_map" by blast
  then show "r \<in> row_entries ((x, y, z, flag) # L) start_map"
  proof cases
    case 1
    have "(x, y, z, flag) # L = [] @ (x, y, z, flag) # L" by simp
    moreover have "start_map_after [] start_map (y, z) = Some s" using assms(2) by simp
    ultimately show ?thesis unfolding row_entries_def using 1 assms(1) by blast
  next
    case 2
    then obtain P x' y' z' flag' Q s' where r: "r = ((y', z'), (s', x'))"
      "L = P @ (x', y', z', flag') # Q" "flag' \<noteq> 0"
      "start_map_after P start_map (y', z') = Some s'"
      unfolding row_entries_def by blast
    have "(x, y, z, flag) # L = ((x, y, z, flag) # P) @ (x', y', z', flag') # Q" using r(2) by simp
    moreover have "start_map_after ((x, y, z, flag) # P) start_map (y', z') = Some s'"
      using r(4) assms(1) by simp
    ultimately show ?thesis unfolding row_entries_def using r(1,3) by blast
  qed
qed

lemma starts_defined_start:
  "starts_defined ((x, y, z, 0) # L) start_map \<Longrightarrow> starts_defined L (start_map((y, z) \<mapsto> x))"
  unfolding starts_defined_def
proof (intro allI impI)
  fix P x' y' z' flag Q
  assume a: "\<forall>P x' y' z' flag Q. (x, y, z, 0) # L = P @ (x', y', z', flag) # Q \<and> flag \<noteq> 0 \<longrightarrow>
        start_map_after P start_map (y', z') \<noteq> None"
    and b: "L = P @ (x', y', z', flag) # Q \<and> flag \<noteq> 0"
  have "(x, y, z, 0) # L = ((x, y, z, 0) # P) @ (x', y', z', flag) # Q" using b by simp
  with a b have "start_map_after ((x, y, z, 0) # P) start_map (y', z') \<noteq> None" by blast
  then show "start_map_after P (start_map((y, z) \<mapsto> x)) (y', z') \<noteq> None" by simp
qed

lemma starts_defined_end:
  assumes "starts_defined ((x, y, z, flag) # L) start_map" "flag \<noteq> 0"
  shows "start_map (y, z) \<noteq> None \<and> starts_defined L start_map"
proof
  have "(x, y, z, flag) # L = [] @ (x, y, z, flag) # L" by simp
  with assms have "start_map_after [] start_map (y, z) \<noteq> None"
    unfolding starts_defined_def by blast
  then show "start_map (y, z) \<noteq> None" by simp
next
  show "starts_defined L start_map"
    unfolding starts_defined_def
  proof (intro allI impI)
    fix P x' y' z' flag' Q
    assume b: "L = P @ (x', y', z', flag') # Q \<and> flag' \<noteq> 0"
    have "(x, y, z, flag) # L = ((x, y, z, flag) # P) @ (x', y', z', flag') # Q" using b by simp
    with assms(1) b have "start_map_after ((x, y, z, flag) # P) start_map (y', z') \<noteq> None"
      unfolding starts_defined_def by blast
    then show "start_map_after P start_map (y', z') \<noteq> None" using assms(2) by simp
  qed
qed

lemma rows_loop_entries:
  "wf_dict rows \<Longrightarrow> starts_defined L start_map \<Longrightarrow>
   \<exists>rows'. rows_loop L start_map rows = Inr rows' \<and> wf_dict rows' \<and>
     entries rows' = entries rows \<union> row_entries L start_map"
proof (induction L arbitrary: start_map rows)
  case Nil
  then show ?case by simp
next
  case (Cons b L)
  obtain x y z flag where b: "b = (x, y, z, flag)" by (cases b)
  show ?case
  proof (cases "flag = 0")
    case True
    have "starts_defined L (start_map((y, z) \<mapsto> x))"
      using Cons.prems(2) unfolding b True by (rule starts_defined_start)
    from Cons.IH [OF Cons.prems(1) this] obtain rows' where
      r: "rows_loop L (start_map((y, z) \<mapsto> x)) rows = Inr rows'" "wf_dict rows'"
        "entries rows' = entries rows \<union> row_entries L (start_map((y, z) \<mapsto> x))"
      by blast
    have "rows_loop ((x, y, z, 0) # L) start_map rows = rows_loop L (start_map((y, z) \<mapsto> x)) rows"
      by (simp only: rows_loop.simps refl if_True)
    then have 1: "rows_loop ((x, y, z, 0) # L) start_map rows = Inr rows'"
      using r(1) by (simp only:)
    show ?thesis
      unfolding b True row_entries_start
      by (rule exI [of _ rows'], intro conjI, rule 1, rule r(2), rule r(3))
  next
    case False
    from starts_defined_end [OF Cons.prems(2) [unfolded b] False]
    obtain s where s: "start_map (y, z) = Some s" and d: "starts_defined L start_map" by auto
    have wf: "wf_dict (dict_add (y, z) (s, x) rows)" by (rule wf_dict_add [OF Cons.prems(1)])
    from Cons.IH [OF wf d] obtain rows' where
      r: "rows_loop L start_map (dict_add (y, z) (s, x) rows) = Inr rows'" "wf_dict rows'"
        "entries rows' = entries (dict_add (y, z) (s, x) rows) \<union> row_entries L start_map"
      by blast
    have "rows_loop (b # L) start_map rows = rows_loop L start_map (dict_add (y, z) (s, x) rows)"
      unfolding b using False s by simp
    moreover have "entries rows' = entries rows \<union> row_entries ((x, y, z, flag) # L) start_map"
      unfolding r(3) entries_dict_add
        row_entries_end [where start_map = start_map and y = y and z = z and s = s, OF False s]
      by blast
    ultimately have 2: "rows_loop ((x, y, z, flag) # L) start_map rows = Inr rows'"
      "entries rows' = entries rows \<union> row_entries ((x, y, z, flag) # L) start_map"
      using r(1) unfolding b by simp_all
    show ?thesis
      unfolding b
      by (rule exI [of _ rows'], intro conjI, rule 2(1), rule r(2), rule 2(2))
  qed
qed

lemma diff_x_pos: "diff_x g (x, y, z) > 0 \<longleftrightarrow> is_crown g (x, y, z) \<and> \<not> is_crown g (x - 1, y, z)"
  by (simp add: diff_x_def crown_indicator_def is_crown_def)

lemma diff_x_neg: "diff_x g (x, y, z) < 0 \<longleftrightarrow> \<not> is_crown g (x, y, z) \<and> is_crown g (x - 1, y, z)"
  by (simp add: diff_x_def crown_indicator_def is_crown_def)

lemma border_positions_mem:
  "b \<in> set (border_positions g) \<longleftrightarrow>
     (\<exists>x y z. b = (x, y, z, 0) \<and> is_crown g (x, y, z) \<and> \<not> is_crown g (x - 1, y, z)) \<or>
     (\<exists>e y z. b = (e, y, z, 1) \<and> is_crown g (e, y, z) \<and> \<not> is_crown g (e + 1, y, z))"
proof -
  obtain nx ny nz where sh: "shape g = (nx, ny, nz)" by (cases "shape g")
  define D where "D = [(x, y, z). x \<leftarrow> [0 .. int nx], y \<leftarrow> [0 .. int ny - 1], z \<leftarrow> [0 .. int nz - 1]]"
  have D: "(x, y, z) \<in> set D \<longleftrightarrow> 0 \<le> x \<and> x \<le> int nx \<and> 0 \<le> y \<and> y < int ny \<and> 0 \<le> z \<and> z < int nz"
    for x y z
    by (force simp: D_def image_iff)
  have ib: "is_crown g (x, y, z) \<Longrightarrow> 0 \<le> x \<and> x < int nx \<and> 0 \<le> y \<and> y < int ny \<and> 0 \<le> z \<and> z < int nz"
    for x y z
    by (simp add: is_crown_def in_bounds_def sh)
  have bp: "border_positions g =
      map (\<lambda>(x, y, z). (x, y, z, 0)) (filter (\<lambda>c. diff_x g c > 0) D)
      @ map (\<lambda>(x, y, z). (x - 1, y, z, 1)) (filter (\<lambda>c. diff_x g c < 0) D)"
    by (simp add: border_positions_def sh D_def Let_def)
  have s: "b \<in> set (map (\<lambda>(x, y, z). (x, y, z, 0)) (filter (\<lambda>c. diff_x g c > 0) D)) \<longleftrightarrow>
      (\<exists>x y z. b = (x, y, z, 0) \<and> is_crown g (x, y, z) \<and> \<not> is_crown g (x - 1, y, z))"
  proof
    assume "b \<in> set (map (\<lambda>(x, y, z). (x, y, z, 0)) (filter (\<lambda>c. diff_x g c > 0) D))"
    then obtain x y z where "b = (x, y, z, 0)" "diff_x g (x, y, z) > 0" by auto
    then show "\<exists>x y z. b = (x, y, z, 0) \<and> is_crown g (x, y, z) \<and> \<not> is_crown g (x - 1, y, z)"
      using diff_x_pos by blast
  next
    assume "\<exists>x y z. b = (x, y, z, 0) \<and> is_crown g (x, y, z) \<and> \<not> is_crown g (x - 1, y, z)"
    then obtain x y z where b: "b = (x, y, z, 0)" "is_crown g (x, y, z)" "\<not> is_crown g (x - 1, y, z)"
      by blast
    have "(x, y, z) \<in> set D" using ib [OF b(2)] D by simp
    moreover have "diff_x g (x, y, z) > 0" using b(2,3) diff_x_pos by blast
    ultimately have "(x, y, z) \<in> set (filter (\<lambda>c. diff_x g c > 0) D)" by simp
    then have "(\<lambda>(x, y, z). (x, y, z, 0 :: nat)) (x, y, z)
        \<in> set (map (\<lambda>(x, y, z). (x, y, z, 0)) (filter (\<lambda>c. diff_x g c > 0) D))"
      unfolding set_map by (rule imageI)
    then show "b \<in> set (map (\<lambda>(x, y, z). (x, y, z, 0)) (filter (\<lambda>c. diff_x g c > 0) D))"
      using b(1) by simp
  qed
  have e: "b \<in> set (map (\<lambda>(x, y, z). (x - 1, y, z, 1)) (filter (\<lambda>c. diff_x g c < 0) D)) \<longleftrightarrow>
      (\<exists>e y z. b = (e, y, z, 1) \<and> is_crown g (e, y, z) \<and> \<not> is_crown g (e + 1, y, z))"
  proof
    assume "b \<in> set (map (\<lambda>(x, y, z). (x - 1, y, z, 1)) (filter (\<lambda>c. diff_x g c < 0) D))"
    then obtain x y z where "b = (x - 1, y, z, 1)" "diff_x g (x, y, z) < 0" by auto
    then have "b = (x - 1, y, z, 1) \<and> is_crown g (x - 1, y, z) \<and> \<not> is_crown g (x - 1 + 1, y, z)"
      using diff_x_neg by simp
    then show "\<exists>e y z. b = (e, y, z, 1) \<and> is_crown g (e, y, z) \<and> \<not> is_crown g (e + 1, y, z)"
      by blast
  next
    assume "\<exists>e y z. b = (e, y, z, 1) \<and> is_crown g (e, y, z) \<and> \<not> is_crown g (e + 1, y, z)"
    then obtain e y z where b: "b = (e, y, z, 1)" "is_crown g (e, y, z)" "\<not> is_crown g (e + 1, y, z)"
      by blast
    have "(e + 1, y, z) \<in> set D" using ib [OF b(2)] D by simp
    moreover have "diff_x g (e + 1, y, z) < 0" using b(2,3) diff_x_neg [of g "e + 1" y z] by simp
    ultimately have "(e + 1, y, z) \<in> set (filter (\<lambda>c. diff_x g c < 0) D)" by simp
    then have "(\<lambda>(x, y, z). (x - 1, y, z, 1 :: nat)) (e + 1, y, z)
        \<in> set (map (\<lambda>(x, y, z). (x - 1, y, z, 1)) (filter (\<lambda>c. diff_x g c < 0) D))"
      unfolding set_map by (rule imageI)
    then show "b \<in> set (map (\<lambda>(x, y, z). (x - 1, y, z, 1)) (filter (\<lambda>c. diff_x g c < 0) D))"
      using b(1) by simp
  qed
  show ?thesis unfolding bp set_append Un_iff s e ..
qed

lemma start_map_after_snoc:
  "start_map_after (P @ [(x, y, z, flag)]) start_map =
     (if flag = 0 then (start_map_after P start_map)((y, z) \<mapsto> x) else start_map_after P start_map)"
proof (induction P arbitrary: start_map)
  case Nil
  then show ?case by simp
next
  case (Cons b P)
  obtain x' y' z' flag' where b: "b = (x', y', z', flag')" by (cases b)
  show ?case unfolding b using Cons.IH by simp
qed

lemma start_map_after_sorted:
  "sorted (map border_key P) \<Longrightarrow>
   (case start_map_after P Map.empty (y, z) of
      None \<Rightarrow> (\<forall>x. (x, y, z, 0) \<notin> set P)
    | Some s \<Rightarrow> (s, y, z, 0) \<in> set P \<and> (\<forall>x. (x, y, z, 0) \<in> set P \<longrightarrow> x \<le> s))"
proof (induction P rule: rev_induct)
  case Nil
  then show ?case by simp
next
  case (snoc b P)
  obtain x' y' z' flag where b: "b = (x', y', z', flag)" by (cases b)
  have so: "sorted (map border_key P)" and le: "\<forall>p \<in> set P. border_key p \<le> border_key b"
    using snoc.prems by (simp_all add: sorted_append)
  note IH = snoc.IH [OF so]
  show ?case
  proof (cases "flag = 0 \<and> (y', z') = (y, z)")
    case True
    have v: "start_map_after (P @ [b]) Map.empty (y, z) = Some x'"
      unfolding b using True by (simp add: start_map_after_snoc)
    have "x \<le> x'" if "(x, y, z, 0) \<in> set (P @ [b])" for x
    proof (cases "(x, y, z, 0) = b")
      case True
      then show ?thesis by (simp add: b)
    next
      case False
      then have "(x, y, z, 0) \<in> set P" using that by simp
      then have "border_key (x, y, z, 0) \<le> border_key b" using le by blast
      then show ?thesis by (auto simp: border_key_def b)
    qed
    moreover have "(x', y, z, 0) \<in> set (P @ [b])" using True by (simp add: b)
    ultimately show ?thesis unfolding v by simp
  next
    case False
    have v: "start_map_after (P @ [b]) Map.empty (y, z) = start_map_after P Map.empty (y, z)"
      unfolding b using False by (auto simp: start_map_after_snoc)
    have same: "(x, y, z, 0) \<in> set (P @ [b]) \<longleftrightarrow> (x, y, z, 0) \<in> set P" for x
      using False by (auto simp: b)
    show ?thesis unfolding v same by (rule IH)
  qed
qed

lemma end_event_start:
  assumes so: "sorted (map border_key L)" and set: "set L = set (border_positions g)"
    and L: "L = P @ (e, y, z, flag) # Q" and flag: "flag \<noteq> 0"
  shows "\<exists>s. start_map_after P Map.empty (y, z) = Some s \<and> ((y, z), (s, e)) \<in> maximal_runs g"
proof -
  have "(e, y, z, flag) \<in> set (border_positions g)" using set L by auto
  then have en: "flag = 1" "is_crown g (e, y, z)" "\<not> is_crown g (e + 1, y, z)"
    using flag unfolding border_positions_mem by auto
  from run_start_exists [OF en(2)] obtain s where s: "s \<le> e"
    "\<forall>x \<in> {s .. e}. is_crown g (x, y, z)" "\<not> is_crown g (s - 1, y, z)" by blast
  have cs: "is_crown g (s, y, z)" using s(1,2) by simp
  have soP: "sorted (map border_key P)" and
    leP: "\<forall>p \<in> set P. border_key p \<le> border_key (e, y, z, flag)" and
    geQ: "\<forall>q \<in> set Q. border_key (e, y, z, flag) \<le> border_key q"
    using so unfolding L by (simp_all add: sorted_append)
  have "(s, y, z, 0) \<in> set L"
    unfolding set border_positions_mem using cs s(3) by blast
  moreover have "(s, y, z, 0) \<notin> set Q"
  proof
    assume "(s, y, z, 0) \<in> set Q"
    then have "border_key (e, y, z, flag) \<le> border_key (s, y, z, 0)" using geQ by blast
    then show False using s(1) en(1) by (auto simp: border_key_def)
  qed
  ultimately have inP: "(s, y, z, 0) \<in> set P" using L flag by auto
  from start_map_after_sorted [OF soP, of y z] inP obtain s' where s':
    "start_map_after P Map.empty (y, z) = Some s'" "(s', y, z, 0) \<in> set P" "s \<le> s'"
    by (cases "start_map_after P Map.empty (y, z)") auto
  have "border_key (s', y, z, 0) \<le> border_key (e, y, z, flag)" using leP s'(2) by blast
  then have s'e: "s' \<le> e" by (auto simp: border_key_def)
  have "(s', y, z, 0) \<in> set (border_positions g)" using s'(2) set L by auto
  then have st: "is_crown g (s', y, z)" "\<not> is_crown g (s' - 1, y, z)"
    unfolding border_positions_mem by auto
  have "s' = s"
    by (rule run_start_unique [OF s(1,2,3) s'e st s'(3)])
  moreover have "((y, z), (s, e)) \<in> maximal_runs g"
    using s en(3) by (auto simp: maximal_runs_def)
  ultimately show ?thesis using s'(1) by blast
qed

lemma capture_rows_correct:
  "\<exists>rows. capture_rows g = Inr rows \<and> wf_dict rows \<and> entries rows = maximal_runs g"
proof -
  define L where "L = sort_key border_key (border_positions g)"
  have so: "sorted (map border_key L)" unfolding L_def by (rule sorted_sort_key)
  have set: "set L = set (border_positions g)" unfolding L_def by simp
  have sd: "starts_defined L Map.empty"
    unfolding starts_defined_def
  proof (intro allI impI)
    fix P x y z flag Q
    assume "L = P @ (x, y, z, flag) # Q \<and> flag \<noteq> 0"
    then show "start_map_after P Map.empty (y, z) \<noteq> None"
      using end_event_start [OF so set, of P x y z flag Q] by auto
  qed
  have re: "row_entries L Map.empty = maximal_runs g"
  proof (rule set_eqI, rule iffI)
    fix r assume "r \<in> row_entries L Map.empty"
    then obtain P x y z flag Q s where r: "r = ((y, z), (s, x))"
      "L = P @ (x, y, z, flag) # Q" "flag \<noteq> 0" "start_map_after P Map.empty (y, z) = Some s"
      unfolding row_entries_def by blast
    from end_event_start [OF so set r(2,3)] r(4) show "r \<in> maximal_runs g"
      unfolding r(1) by auto
  next
    fix r assume r: "r \<in> maximal_runs g"
    then obtain y z s e where r': "r = ((y, z), (s, e))" "s \<le> e"
      "\<forall>x \<in> {s .. e}. is_crown g (x, y, z)" "\<not> is_crown g (e + 1, y, z)"
      by (auto simp: maximal_runs_def)
    have "is_crown g (e, y, z)" using r'(2,3) by simp
    then have "(e, y, z, 1) \<in> set L"
      unfolding set border_positions_mem using r'(4) by blast
    then obtain P Q where L: "L = P @ (e, y, z, 1) # Q" by (meson split_list)
    from end_event_start [OF so set L] obtain s' where s':
      "start_map_after P Map.empty (y, z) = Some s'" "((y, z), (s', e)) \<in> maximal_runs g"
      by auto
    have "((y, z), (s', e)) = r"
    proof (rule ccontr)
      assume "((y, z), (s', e)) \<noteq> r"
      then have "row_cells ((y, z), (s', e)) \<inter> row_cells r = {}"
        using maximal_runs_disjoint [of g] s'(2) r unfolding disjoint_family_def by blast
      moreover have "(e, y, z) \<in> row_cells r" using r'(1,2) by (simp add: row_cells_def)
      moreover have "s' \<le> e" using s'(2) by (auto simp: maximal_runs_def)
      then have "(e, y, z) \<in> row_cells ((y, z), (s', e))" by (simp add: row_cells_def)
      ultimately show False by blast
    qed
    then have "r = ((y, z), (s', e))" by simp
    moreover have "(1 :: nat) \<noteq> 0" by simp
    ultimately show "r \<in> row_entries L Map.empty"
      unfolding row_entries_def using L s'(1) by blast
  qed
  have wf0: "wf_dict ([] :: (int \<times> int, int \<times> int) setdict)" by (simp add: wf_dict_def)
  from rows_loop_entries [OF wf0 sd] show ?thesis
    unfolding capture_rows_def Let_def L_def [symmetric] re by simp
qed

lemma capture_quads_correct:
  "\<exists>quads. capture_quads pick_row pick_plane g = Inr quads \<and>
     \<Union> (box_cells ` set quads) = {c. in_bounds g c \<and> cells g c = crown} \<and> disjoint_boxes quads"
proof -
  from capture_rows_correct [of g] obtain rows where rows:
    "capture_rows g = Inr rows" "wf_dict rows" "entries rows = maximal_runs g"
    by blast
  have wf0: "wf_dict ([] :: (int, int \<times> int \<times> int \<times> int) setdict)" by (simp add: wf_dict_def)
  have dr: "disjoint_family row_cells (entries rows)"
    unfolding rows(3) by (rule maximal_runs_disjoint)
  from capture_planes_loop_correct [OF rows(2) wf0 dr, of pick_row 0]
  obtain planes where planes: "capture_planes_loop pick_row 0 rows [] = Inr planes"
    "wf_dict planes" "disjoint_family plane_cells (entries planes)"
    "\<Union> (plane_cells ` entries planes) = \<Union> (row_cells ` entries rows)"
    by auto
  from capture_quads_loop_correct [OF planes(2,3), of "[]" pick_plane 0]
  obtain quads where quads: "capture_quads_loop pick_plane 0 planes [] = Inr quads"
    "disjoint_boxes quads"
    "\<Union> (box_cells ` set quads) = \<Union> (plane_cells ` entries planes)"
    by auto
  have "capture_quads pick_row pick_plane g = Inr quads"
    by (simp add: capture_quads_def capture_planes_def rows(1) planes(1) quads(1))
  moreover have "\<Union> (box_cells ` set quads) = {c. in_bounds g c \<and> cells g c = crown}"
    unfolding quads(3) planes(4) rows(3) maximal_runs_cover is_crown_def ..
  ultimately show ?thesis using quads(2) by blast
qed

text \<open>
  C2: for every grid and every order in which the sets are iterated, \<^verbatim>\<open>capture_quads\<close>
  returns; the cells covered by the returned boxes are exactly the cells of the grid
  that hold crown, and no two boxes of the list have a cell in common.
\<close>

theorem greedy_meshing_partition:
  "\<exists>quads. capture_quads pick_row pick_plane instance_matrix = Inr quads \<and>
     \<Union> (box_cells ` set quads)
       = {c. in_bounds instance_matrix c \<and> cells instance_matrix c = crown} \<and>
     (\<forall>i < length quads. \<forall>j < length quads. i \<noteq> j \<longrightarrow>
        box_cells (quads ! i) \<inter> box_cells (quads ! j) = {})"
  using capture_quads_correct [of pick_row pick_plane instance_matrix]
  unfolding disjoint_boxes_def by blast

theorem greedy_meshing_partition_witness:
  "capture_quads (\<lambda>n. n) (\<lambda>n. 0) mesh_example
     = Inr [(0, 1, 0, 2, 1, 0), (0, 0, 0, 0, 0, 0), (2, 0, 0, 2, 0, 0),
            (0, 0, 1, 2, 0, 1), (0, 1, 1, 0, 1, 1), (2, 1, 1, 2, 1, 1)] \<and>
   \<Union> (box_cells ` set [(0, 1, 0, 2, 1, 0), (0, 0, 0, 0, 0, 0), (2, 0, 0, 2, 0, 0),
            (0, 0, 1, 2, 0, 1), (0, 1, 1, 0, 1, 1), (2, 1, 1, 2, 1, 1)])
     = {c. in_bounds mesh_example c \<and> cells mesh_example c = crown} \<and>
   box_cells (0, 1, 0, 2, 1, 0) \<inter> box_cells (0, 0, 0, 0, 0, 0) = {}"
proof -
  have c: "capture_quads (\<lambda>n. n) (\<lambda>n. 0) mesh_example
     = Inr [(0, 1, 0, 2, 1, 0), (0, 0, 0, 0, 0, 0), (2, 0, 0, 2, 0, 0),
            (0, 0, 1, 2, 0, 1), (0, 1, 1, 0, 1, 1), (2, 1, 1, 2, 1, 1)]"
    by code_simp
  from greedy_meshing_partition [of "\<lambda>n. n" "\<lambda>n. 0" mesh_example]
  obtain quads where q: "capture_quads (\<lambda>n. n) (\<lambda>n. 0) mesh_example = Inr quads"
    "\<Union> (box_cells ` set quads) = {c. in_bounds mesh_example c \<and> cells mesh_example c = crown}"
    "\<forall>i < length quads. \<forall>j < length quads. i \<noteq> j \<longrightarrow>
        box_cells (quads ! i) \<inter> box_cells (quads ! j) = {}"
    by blast
  have qs: "quads = [(0, 1, 0, 2, 1, 0), (0, 0, 0, 0, 0, 0), (2, 0, 0, 2, 0, 0),
            (0, 0, 1, 2, 0, 1), (0, 1, 1, 0, 1, 1), (2, 1, 1, 2, 1, 1)]"
    using q(1) c by simp
  have "0 < length quads" "1 < length quads" "(0 :: nat) \<noteq> 1" unfolding qs by simp_all
  then have "box_cells (quads ! 0) \<inter> box_cells (quads ! 1) = {}"
    using q(3) by blast
  then have "box_cells (0, 1, 0, 2, 1, 0) \<inter> box_cells (0, 0, 0, 0, 0, 0) = {}"
    unfolding qs by simp
  then show ?thesis using c q(2) unfolding qs by blast
qed

end
